theory Spec2Isabelle
  imports Main "HOL-Library.Log_Nat" "HOL-Library.Monad_Syntax" "HOL-Library.Word"
begin

unbundle bit_operations_syntax

section \<open>Numbers and bytes\<close>

text \<open>
  The index type of the sources is the JavaScript \<open>number\<close>.  It is modelled by \<open>int\<close>,
  which is exact as long as every value is an integer of magnitude below \<open>2 ^ 53\<close>.
  The bitwise operators of JavaScript first convert their operands to 32-bit
  two's complement integers and take the shift count modulo 32; this is written out
  below.  A loop that does not return has the result \<open>None\<close>.  \<open>Math.log2\<close> of a number
  below 1 is \<open>NaN\<close> or \<open>-Infinity\<close>, and so is every sum with it; such a number is written
  \<open>None\<close> too, and a shift takes it for the count 0, as \<open>1 << NaN\<close> is 1.
\<close>

type_synonym Index = int
type_synonym byte = "8 word"
type_synonym bytes = "byte list"
type_synonym Hasher = "bytes \<Rightarrow> bytes"

definition to_int32 :: "int \<Rightarrow> int" where
  "to_int32 x = (x + 2 ^ 31) mod 2 ^ 32 - 2 ^ 31"

definition to_uint32 :: "int \<Rightarrow> int" where
  "to_uint32 x = x mod 2 ^ 32"

text \<open>\<open>a << b\<close>, \<open>a >> b\<close>, \<open>a & b\<close> and \<open>a | b\<close>.\<close>

definition shl :: "int \<Rightarrow> int \<Rightarrow> int" where
  "shl a b = to_int32 (to_int32 a * 2 ^ nat (b mod 32))"

definition sshr :: "int \<Rightarrow> int \<Rightarrow> int" where
  "sshr a b = to_int32 a div 2 ^ nat (b mod 32)"

definition band :: "int \<Rightarrow> int \<Rightarrow> int" where
  "band a b = to_int32 a AND to_int32 b"

definition bor :: "int \<Rightarrow> int \<Rightarrow> int" where
  "bor a b = to_int32 a OR to_int32 b"

text \<open>\<open>Math.clz32\<close>: the leading zero bits of the operand as an unsigned 32-bit integer.\<close>

definition clz32 :: "int \<Rightarrow> int" where
  "clz32 x = 32 - int (floorlog 2 (nat (to_uint32 x)))"

text \<open>
  \<open>Math.floor(Math.log2(x))\<close>, as the exact integer logarithm.  This is the value of the
  code for \<open>1 \<le> x < 2 ^ 49 - 1\<close>; from \<open>2 ^ 49 - 1\<close> on the floating-point logarithm of a
  number just below a power of two rounds up to the next integer and the code is one
  too large.  Every result below takes its arguments below \<open>2 ^ 33\<close>.
\<close>

definition log2_floor :: "int \<Rightarrow> int option" where
  "log2_floor x = (if 1 \<le> x then Some (int (floorlog 2 (nat x)) - 1) else None)"

definition bit_length :: "Index \<Rightarrow> int option" where
  "bit_length x = (if x = 0 then Some 0 else map_option (\<lambda>l. l + 1) (log2_floor x))"

text \<open>The count of a shift by a number that may be \<open>NaN\<close>.\<close>

definition shift_count :: "int option \<Rightarrow> int" where
  "shift_count b = (case b of None \<Rightarrow> 0 | Some n \<Rightarrow> n)"

definition most_sig_bit :: "Index \<Rightarrow> Index" where
  "most_sig_bit x = shl 1 (shift_count (map_option (\<lambda>b. b - 1) (bit_length x)))"

definition all_ones :: "Index \<Rightarrow> bool" where
  "all_ones pos =
     (let imsb = map_option (\<lambda>b. b - 1) (bit_length pos);
          mask = shl 1 (shift_count (map_option (\<lambda>m. m + 1) imsb)) - 1
      in pos = mask)"

partial_function (option) ones_loop :: "int \<Rightarrow> int \<Rightarrow> int option" where
  "ones_loop count x =
     (if x \<noteq> 0 then ones_loop (count + band x 1) (sshr x 1) else Some count)"

declare ones_loop.simps [code]

definition ones :: "Index \<Rightarrow> int option" where
  "ones x = ones_loop 0 x"

datatype error =
    Error string
  | RangeError
  | TypeError
  | TileFullError
  | MMRIndexRangeError
  | EmptyError
  | ExistsError
  | ChangedError

definition trailing_zeros64 :: "Index \<Rightarrow> error + int" where
  "trailing_zeros64 x =
     (if x < 0 \<or> x > 2 ^ 32 - 1 then Inl RangeError
      else if x = 0 then Inr 64
      else Inr (31 - clz32 (band x (- x))))"

text \<open>\<open>Numbers.toBE64\<close> with the default size 8: \<open>setBigUint64\<close> stores the value modulo \<open>2 ^ 64\<close>.\<close>

definition toBE64 :: "int \<Rightarrow> bytes" where
  "toBE64 n = map (\<lambda>k. word_of_int (n div 2 ^ (8 * (7 - k)))) [0..<8]"

definition concat_bytes :: "bytes list \<Rightarrow> bytes" where
  "concat_bytes inputs = concat inputs"

definition bytes_equal :: "bytes \<Rightarrow> bytes \<Rightarrow> bool" where
  "bytes_equal a b = (length a = length b \<and> (\<forall>k \<in> set [0..<length a]. a ! k = b ! k))"

definition hash_pos_pair64 :: "Hasher \<Rightarrow> Index \<Rightarrow> bytes \<Rightarrow> bytes \<Rightarrow> bytes" where
  "hash_pos_pair64 hasher pos left right = hasher (concat_bytes [toBE64 pos, left, right])"

section \<open>Index algebra\<close>

partial_function (option) index_height_loop :: "Index \<Rightarrow> int option" where
  "index_height_loop pos =
     (if \<not> all_ones pos then index_height_loop (pos - (most_sig_bit pos - 1))
      else map_option (\<lambda>b. b - 1) (bit_length pos))"

declare index_height_loop.simps [code]

definition index_height :: "Index \<Rightarrow> int option" where
  "index_height i = index_height_loop (i + 1)"

partial_function (option) peaks_loop :: "Index \<Rightarrow> Index list \<Rightarrow> int \<Rightarrow> Index list option" where
  "peaks_loop peak ps s =
     (if s \<noteq> 0 then
        (case log2_floor (s + 1) of
           None \<Rightarrow> None
         | Some l \<Rightarrow>
             peaks_loop (peak + (shl 1 l - 1)) (ps @ [peak + (shl 1 l - 1) - 1]) (s - (shl 1 l - 1)))
      else Some ps)"

declare peaks_loop.simps [code]

definition peaks :: "Index \<Rightarrow> Index list option" where
  "peaks i = peaks_loop 0 [] (i + 1)"

lemma sshr_less: "0 < p \<Longrightarrow> sshr p 1 < p"
proof -
  assume p: "0 < p"
  have "to_int32 p \<le> p"
  proof -
    have "(p + 2 ^ 31) mod 2 ^ 32 \<le> p + 2 ^ 31"
      using p by (intro zmod_le_nonneg_dividend) simp
    thus ?thesis by (simp add: to_int32_def)
  qed
  moreover have "to_int32 p div 2 < p"
  proof (cases "0 < to_int32 p")
    case True
    then have "to_int32 p div 2 < to_int32 p" by simp
    with \<open>to_int32 p \<le> p\<close> show ?thesis by simp
  next
    case False
    then have "to_int32 p div 2 \<le> 0" by simp
    with p show ?thesis by simp
  qed
  ultimately show ?thesis by (simp add: sshr_def)
qed

function leaf_count_loop :: "int \<Rightarrow> int \<Rightarrow> int \<Rightarrow> int" where
  "leaf_count_loop peaksize peakmap s =
     (if peaksize > 0 then
        (if s \<ge> peaksize
         then leaf_count_loop (sshr peaksize 1) (bor (shl peakmap 1) 1) (s - peaksize)
         else leaf_count_loop (sshr peaksize 1) (shl peakmap 1) s)
      else peakmap)"
  by pat_completeness auto
termination
  by (relation "measure (\<lambda>(peaksize, peakmap, s). nat peaksize)") (auto simp: sshr_less)

definition leaf_count :: "Index \<Rightarrow> int option" where
  "leaf_count i =
     (let s = i + 1 in
      Some (leaf_count_loop (shl 1 (shift_count (bit_length s)) - 1) 0 s))"

partial_function (option) mmr_index_loop :: "int \<Rightarrow> Index \<Rightarrow> Index option" where
  "mmr_index_loop sm e =
     (if e > 0 then
        (case bit_length e of
           None \<Rightarrow> None
         | Some h \<Rightarrow> mmr_index_loop (sm + (shl 1 h - 1)) (e - shl 1 (h - 1)))
      else Some sm)"

declare mmr_index_loop.simps [code]

definition mmr_index :: "Index \<Rightarrow> Index option" where
  "mmr_index e = mmr_index_loop 0 e"

partial_function (option) complete_mmr_loop :: "Index \<Rightarrow> int \<Rightarrow> int \<Rightarrow> Index option" where
  "complete_mmr_loop i h0 h1 =
     (if h0 < h1 then
        (case index_height (i + 1 + 1) of
           None \<Rightarrow> None
         | Some h \<Rightarrow> complete_mmr_loop (i + 1) h1 h)
      else Some i)"

declare complete_mmr_loop.simps [code]

definition complete_mmr :: "Index \<Rightarrow> Index option" where
  "complete_mmr i =
     (case index_height i of
        None \<Rightarrow> None
      | Some h0 \<Rightarrow>
          (case index_height (i + 1) of
             None \<Rightarrow> None
           | Some h1 \<Rightarrow> complete_mmr_loop i h0 h1))"

function accumulator_root_loop :: "Index \<Rightarrow> int \<Rightarrow> int \<Rightarrow> int \<Rightarrow> Index" where
  "accumulator_root_loop i s peaksize r =
     (if peaksize > 0 then
        (if r + peaksize > s then accumulator_root_loop i s (sshr peaksize 1) r
         else if r + peaksize > i then r + peaksize - 1
         else accumulator_root_loop i s (sshr peaksize 1) (r + peaksize))
      else r)"
  by pat_completeness auto
termination
  by (relation "measure (\<lambda>(i, s, peaksize, r). nat peaksize)") (auto simp: sshr_less)

definition accumulator_root :: "Index \<Rightarrow> Index \<Rightarrow> Index option" where
  "accumulator_root i c =
     (let s = c + 1 in
      Some (accumulator_root_loop i s (shl 1 (shift_count (bit_length s)) - 1) 0))"


section \<open>Proof algorithms\<close>

partial_function (option) inclusion_proof_path_loop ::
  "Index \<Rightarrow> Index \<Rightarrow> int \<Rightarrow> Index list \<Rightarrow> Index list option" where
  "inclusion_proof_path_loop i c g path =
     (let siblingoffset = shl 2 g in
      case index_height (i + 1) of
        None \<Rightarrow> None
      | Some h \<Rightarrow>
          if h > g then
            (let isibling = i - siblingoffset + 1 in
             if isibling > c then Some path
             else inclusion_proof_path_loop (i + 1) c (g + 1) (path @ [isibling]))
          else
            (let isibling = i + siblingoffset - 1 in
             if isibling > c then Some path
             else inclusion_proof_path_loop (i + siblingoffset) c (g + 1) (path @ [isibling])))"

declare inclusion_proof_path_loop.simps [code]

definition inclusion_proof_path :: "Index \<Rightarrow> Index \<Rightarrow> Index list option" where
  "inclusion_proof_path i c =
     (case index_height i of
        None \<Rightarrow> None
      | Some g \<Rightarrow> inclusion_proof_path_loop i c g [])"

fun included_root_loop :: "Hasher \<Rightarrow> Index \<Rightarrow> int \<Rightarrow> bytes \<Rightarrow> bytes list \<Rightarrow> bytes option" where
  "included_root_loop hasher i g rt [] = Some rt"
| "included_root_loop hasher i g rt (sibling # pf) =
     (case index_height (i + 1) of
        None \<Rightarrow> None
      | Some h \<Rightarrow>
          if h > g then
            included_root_loop hasher (i + 1) (g + 1)
              (hash_pos_pair64 hasher (i + 1 + 1) sibling rt) pf
          else
            included_root_loop hasher (i + shl 2 g) (g + 1)
              (hash_pos_pair64 hasher (i + shl 2 g + 1) rt sibling) pf)"

definition included_root :: "Hasher \<Rightarrow> Index \<Rightarrow> bytes \<Rightarrow> bytes list \<Rightarrow> bytes option" where
  "included_root hasher i v pf =
     (case index_height i of
        None \<Rightarrow> None
      | Some g \<Rightarrow> included_root_loop hasher i g v pf)"

fun consistency_proof_paths_loop :: "Index list \<Rightarrow> Index \<Rightarrow> Index list list option" where
  "consistency_proof_paths_loop [] ito = Some []"
| "consistency_proof_paths_loop (ipeak # frompeaks) ito =
     (case inclusion_proof_path ipeak ito of
        None \<Rightarrow> None
      | Some path \<Rightarrow> map_option (\<lambda>rest. path # rest) (consistency_proof_paths_loop frompeaks ito))"

definition consistency_proof_paths :: "Index \<Rightarrow> Index \<Rightarrow> Index list list option" where
  "consistency_proof_paths ifrom ito =
     (case peaks ifrom of
        None \<Rightarrow> None
      | Some frompeaks \<Rightarrow> consistency_proof_paths_loop frompeaks ito)"

fun consistent_roots_loop ::
  "Hasher \<Rightarrow> Index list \<Rightarrow> bytes list \<Rightarrow> bytes list list \<Rightarrow> bytes list \<Rightarrow> bytes list option" where
  "consistent_roots_loop hasher (p # frompeaks) (a # accumulatorfrom) (pr # proofs) roots =
     (case included_root hasher p a pr of
        None \<Rightarrow> None
      | Some rt \<Rightarrow>
          if roots \<noteq> [] \<and> bytes_equal (last roots) rt
          then consistent_roots_loop hasher frompeaks accumulatorfrom proofs roots
          else consistent_roots_loop hasher frompeaks accumulatorfrom proofs (roots @ [rt]))"
| "consistent_roots_loop hasher frompeaks accumulatorfrom proofs roots = Some roots"

definition consistent_roots ::
  "Hasher \<Rightarrow> Index \<Rightarrow> bytes list \<Rightarrow> bytes list list \<Rightarrow> (error + bytes list) option" where
  "consistent_roots hasher ifrom accumulatorfrom proofs =
     (case peaks ifrom of
        None \<Rightarrow> None
      | Some frompeaks \<Rightarrow>
          if length frompeaks \<noteq> length accumulatorfrom
          then Some (Inl (Error ''accumulator has invalid length for index ifrom''))
          else if length frompeaks \<noteq> length proofs
          then Some (Inl (Error ''incorrect proof count for the provided accumulator''))
          else map_option Inr
                 (consistent_roots_loop hasher frompeaks accumulatorfrom proofs []))"

section \<open>Adding leaves\<close>

text \<open>
  \<open>add_leaf_hash\<close> works on any object with the methods \<open>append\<close> and \<open>get\<close>; the
  model takes the two methods as functions on a state \<open>'db\<close>.
\<close>

partial_function (option) add_leaf_hash_loop ::
  "('db \<Rightarrow> bytes \<Rightarrow> error + 'db \<times> Index) \<Rightarrow> ('db \<Rightarrow> Index \<Rightarrow> error + bytes) \<Rightarrow> Hasher
     \<Rightarrow> 'db \<Rightarrow> Index \<Rightarrow> int \<Rightarrow> (error + 'db \<times> Index) option" where
  "add_leaf_hash_loop db_append db_get hasher db i g =
     (case index_height i of
        None \<Rightarrow> None
      | Some h \<Rightarrow>
          if h > g then
            (case db_get db (i - shl 2 g) of
               Inl e \<Rightarrow> Some (Inl e)
             | Inr left \<Rightarrow>
                 (case db_get db (i - 1) of
                    Inl e \<Rightarrow> Some (Inl e)
                  | Inr right \<Rightarrow>
                      (case db_append db (hash_pos_pair64 hasher (i + 1) left right) of
                         Inl e \<Rightarrow> Some (Inl e)
                       | Inr r \<Rightarrow>
                           add_leaf_hash_loop db_append db_get hasher (fst r) (snd r) (g + 1))))
          else Some (Inr (db, i)))"

declare add_leaf_hash_loop.simps [code]

definition add_leaf_hash ::
  "('db \<Rightarrow> bytes \<Rightarrow> error + 'db \<times> Index) \<Rightarrow> ('db \<Rightarrow> Index \<Rightarrow> error + bytes) \<Rightarrow> Hasher
     \<Rightarrow> 'db \<Rightarrow> bytes \<Rightarrow> (error + 'db \<times> Index) option" where
  "add_leaf_hash db_append db_get hasher db f =
     (case db_append db f of
        Inl e \<Rightarrow> Some (Inl e)
      | Inr r \<Rightarrow> add_leaf_hash_loop db_append db_get hasher (fst r) (snd r) 0)"

text \<open>
  The in-memory adder of the tests: a list of nodes.  Reading past the end gives
  \<open>undefined\<close>, on which the concatenation inside \<open>hash_pos_pair64\<close> raises a \<open>TypeError\<close>.
\<close>

definition LeafAdder_append :: "bytes list \<Rightarrow> bytes \<Rightarrow> error + bytes list \<times> Index" where
  "LeafAdder_append nodes node = Inr (nodes @ [node], int (length nodes) + 1)"

definition LeafAdder_get :: "bytes list \<Rightarrow> Index \<Rightarrow> error + bytes" where
  "LeafAdder_get nodes i =
     (if 0 \<le> i \<and> i < int (length nodes) then Inr (nodes ! nat i) else Inl TypeError)"

fun add_leaves :: "Hasher \<Rightarrow> bytes list \<Rightarrow> bytes list \<Rightarrow> (error + bytes list) option" where
  "add_leaves hasher nodes [] = Some (Inr nodes)"
| "add_leaves hasher nodes (f # fs) =
     (case add_leaf_hash LeafAdder_append LeafAdder_get hasher nodes f of
        None \<Rightarrow> None
      | Some (Inl e) \<Rightarrow> Some (Inl e)
      | Some (Inr r) \<Rightarrow> add_leaves hasher (fst r) fs)"


section \<open>The index algebra over the natural numbers\<close>

lemma floorlog2_eqI: "2 ^ k \<le> n \<Longrightarrow> n < 2 ^ Suc k \<Longrightarrow> floorlog 2 n = Suc k"
proof -
  assume a: "2 ^ k \<le> n" and b: "n < 2 ^ Suc k"
  have "Suc k \<le> floorlog 2 n" using a by (intro floorlog_ge_SucI) auto
  moreover have "floorlog 2 n \<le> Suc k" using b by (intro floorlog_leI) auto
  ultimately show ?thesis by simp
qed

lemma floorlog2_bounds: "0 < n \<Longrightarrow> 2 ^ (floorlog 2 n - 1) \<le> n \<and> n < 2 ^ floorlog 2 n"
  using floorlog_bounds[of n 2] by simp

lemma floorlog2_pos: "0 < n \<Longrightarrow> 0 < floorlog 2 n"
  by (simp add: floorlog_def)

text \<open>
  The height of the node at the 1-based position \<open>pos\<close>, over the natural numbers: subtract
  the most significant bit less one until \<open>pos\<close> is a run of ones; the height is then the
  bit length less one.
\<close>

function hloop :: "nat \<Rightarrow> nat" where
  "hloop pos =
     (if pos = 2 ^ floorlog 2 pos - 1 then floorlog 2 pos - 1
      else hloop (pos - (2 ^ (floorlog 2 pos - 1) - 1)))"
  by pat_completeness auto
termination
proof (relation "measure id")
  show "wf (measure id)" by simp
next
  fix pos :: nat
  assume ne: "pos \<noteq> 2 ^ floorlog 2 pos - 1"
  have pos: "0 < pos" using ne by (cases "pos = 0") (auto simp: floorlog_def)
  have "floorlog 2 pos \<noteq> 1"
  proof
    assume e: "floorlog 2 pos = 1"
    with floorlog2_bounds[OF pos] have "pos = 1" by simp
    with ne e show False by simp
  qed
  with floorlog2_pos[OF pos] have "2 \<le> floorlog 2 pos" by simp
  then have "(2::nat) ^ 1 \<le> 2 ^ (floorlog 2 pos - 1)" by (intro power_increasing) auto
  then have "0 < (2::nat) ^ (floorlog 2 pos - 1) - 1" by simp
  with pos show "(pos - (2 ^ (floorlog 2 pos - 1) - 1), pos) \<in> measure id" by simp
qed

declare hloop.simps [simp del]

definition tsz :: "nat \<Rightarrow> nat" where
  "tsz k = 2 ^ k - 1"

lemma tsz_0 [simp]: "tsz 0 = 0"
  by (simp add: tsz_def)

lemma tsz_Suc: "tsz (Suc k) = 2 * tsz k + 1"
proof -
  obtain m where m: "(2::nat) ^ k = Suc m" by (cases "(2::nat) ^ k") auto
  show ?thesis by (simp add: tsz_def m)
qed

lemma tsz_plus1: "tsz k + 1 = 2 ^ k"
  by (simp add: tsz_def)

lemma tsz_mono: "j \<le> k \<Longrightarrow> tsz j \<le> tsz k"
  by (simp add: tsz_def diff_le_mono)

lemma tsz_strict_mono: "j < k \<Longrightarrow> tsz j < tsz k"
  by (simp add: tsz_def diff_less_mono)

lemma tsz_less_Suc: "j < k \<Longrightarrow> 2 * tsz j + 1 \<le> tsz k"
  using tsz_mono[of "Suc j" k] by (simp add: tsz_Suc)

lemma floorlog_tsz_range:
  assumes "tsz k < p" "p \<le> tsz (Suc k)"
  shows "floorlog 2 p = Suc k"
proof (rule floorlog2_eqI)
  show "2 ^ k \<le> p" using assms(1) tsz_plus1[of k] by simp
  show "p < 2 ^ Suc k" using assms(2) tsz_plus1[of "Suc k"] by simp
qed

lemma hloop_tsz: "hloop (tsz (Suc k)) = k"
proof -
  define p where "p = tsz (Suc k)"
  have fl: "floorlog 2 p = Suc k"
    unfolding p_def by (rule floorlog_tsz_range) (simp_all add: tsz_Suc)
  have "hloop p =
      (if p = 2 ^ floorlog 2 p - 1 then floorlog 2 p - 1
       else hloop (p - (2 ^ (floorlog 2 p - 1) - 1)))"
    by (rule hloop.simps)
  also have "\<dots> = k" unfolding fl diff_Suc_1 tsz_def[symmetric] by (simp add: p_def)
  finally show ?thesis by (simp add: p_def)
qed

lemma hloop_shift:
  assumes "1 \<le> q" "q \<le> tsz k"
  shows "hloop (tsz k + q) = hloop q"
proof -
  define p where "p = tsz k + q"
  have fl: "floorlog 2 p = Suc k"
    using assms by (intro floorlog_tsz_range) (simp_all add: p_def tsz_Suc)
  have ne: "p \<noteq> tsz (Suc k)"
    using assms by (simp add: p_def tsz_Suc)
  have "hloop p =
      (if p = 2 ^ floorlog 2 p - 1 then floorlog 2 p - 1
       else hloop (p - (2 ^ (floorlog 2 p - 1) - 1)))"
    by (rule hloop.simps)
  also have "\<dots> = hloop (p - tsz k)" unfolding fl diff_Suc_1 tsz_def[symmetric] using ne by simp
  also have "p - tsz k = q" by (simp add: p_def)
  finally show ?thesis by (simp add: p_def)
qed

lemma pos_cases [consumes 1, case_names top right]:
  assumes "0 < p"
  obtains k where "p = tsz (Suc k)"
  | k q where "1 \<le> q" "q \<le> tsz k" "p = tsz k + q"
proof -
  define k where "k = floorlog 2 p - 1"
  have fl: "floorlog 2 p = Suc k" using floorlog2_pos[OF assms] by (simp add: k_def)
  from floorlog2_bounds[OF assms] have b: "2 ^ k \<le> p" "p < 2 ^ Suc k" by (simp_all add: fl)
  have lo: "tsz k < p" using b(1) tsz_plus1[of k] by simp
  have hi: "p \<le> tsz (Suc k)" using b(2) tsz_plus1[of "Suc k"] by simp
  show thesis
  proof (cases "p = tsz (Suc k)")
    case True
    then show ?thesis by (rule that(1))
  next
    case False
    with hi have a: "p - tsz k \<le> tsz k" by (simp add: tsz_Suc)
    have b: "1 \<le> p - tsz k" using lo by simp
    have c: "p = tsz k + (p - tsz k)" using lo by simp
    show ?thesis by (rule that(2)[OF b a c])
  qed
qed


lemma hloop_shift_Suc: "q < tsz k \<Longrightarrow> hloop (Suc (tsz k + q)) = hloop (Suc q)"
  using hloop_shift[of "Suc q" k] by simp

lemma hloop_1 [simp]: "hloop (Suc 0) = 0"
  using hloop_tsz[of 0] by (simp add: tsz_def)

lemma tsz_pos: "0 < k \<Longrightarrow> 0 < tsz k"
  using tsz_strict_mono[of 0 k] by simp

lemma hloop_size: "0 < p \<Longrightarrow> tsz (Suc (hloop p)) \<le> p"
proof (induction p rule: less_induct)
  case (less p)
  from \<open>0 < p\<close> show ?case
  proof (cases rule: pos_cases)
    case (top k)
    then show ?thesis by (simp add: hloop_tsz)
  next
    case (right k q)
    then have "tsz (Suc (hloop q)) \<le> q" by (intro less.IH) auto
    with right show ?thesis by (simp add: hloop_shift)
  qed
qed

lemma hloop_less: "0 < p \<Longrightarrow> p \<le> tsz k \<Longrightarrow> hloop p < k"
proof (rule ccontr)
  assume p: "0 < p" "p \<le> tsz k" and "\<not> hloop p < k"
  then have "tsz k < tsz (Suc (hloop p))" by (intro tsz_strict_mono) simp
  with hloop_size[OF p(1)] p(2) show False by simp
qed

lemma ltype_bound:
  "0 < q \<Longrightarrow> q < tsz k \<Longrightarrow> hloop (Suc q) \<le> hloop q \<Longrightarrow> q + tsz (Suc (hloop q)) + 1 \<le> tsz k"
proof (induction k arbitrary: q)
  case 0
  then show ?case by simp
next
  case (Suc k)
  have kpos: "0 < k" using Suc.prems by (cases k) (auto simp: tsz_Suc)
  then obtain k' where k': "k = Suc k'" by (cases k) auto
  consider "q < tsz k" | "q = tsz k" | "tsz k < q" by linarith
  then show ?case
  proof cases
    case 1
    with Suc have "q + tsz (Suc (hloop q)) + 1 \<le> tsz k" by simp
    then show ?thesis by (simp add: tsz_Suc)
  next
    case 2
    then have "hloop q = k'" by (simp add: k' hloop_tsz)
    with 2 show ?thesis by (simp add: tsz_Suc k')
  next
    case 3
    define q' where "q' = q - tsz k"
    have q: "q = tsz k + q'" "1 \<le> q'" "q' \<le> tsz k"
      using 3 Suc.prems(2) by (simp_all add: q'_def tsz_Suc)
    have hq: "hloop q = hloop q'" using q by (simp add: hloop_shift)
    show ?thesis
    proof (cases "q' = tsz k")
      case True
      then have "Suc q = tsz (Suc k)" using q by (simp add: tsz_Suc)
      then have "hloop (Suc q) = k" by (simp add: hloop_tsz)
      moreover have "hloop q = k'" using hq True by (simp add: k' hloop_tsz)
      ultimately show ?thesis using Suc.prems(3) k' by simp
    next
      case False
      then have lt: "q' < tsz k" using q by simp
      have "hloop (Suc q) = hloop (Suc q')" using lt q(1) by (simp add: hloop_shift_Suc)
      with Suc.prems(3) hq have "hloop (Suc q') \<le> hloop q'" by simp
      with Suc.IH[of q'] lt q have "q' + tsz (Suc (hloop q')) + 1 \<le> tsz k" by simp
      then show ?thesis using q hq by (simp add: tsz_Suc)
    qed
  qed
qed

lemma hloop_struct:
  assumes "0 < p"
  shows "(hloop (Suc p) = Suc (hloop p) \<and> tsz (Suc (hloop p)) < p
            \<and> hloop (p - tsz (Suc (hloop p))) = hloop p)
       \<or> (hloop (Suc p) = 0 \<and> hloop (p + tsz (Suc (hloop p)) + 1) = Suc (hloop p)
            \<and> hloop (p + tsz (Suc (hloop p))) = hloop p)"
  using assms
proof (induction p rule: less_induct)
  case (less p)
  from \<open>0 < p\<close> show ?case
  proof (cases rule: pos_cases)
    case (top k)
    have "hloop (Suc p) = hloop (tsz (Suc k) + 1)" using top by simp
    also have "\<dots> = hloop 1" by (rule hloop_shift) (simp_all add: tsz_Suc)
    finally have a: "hloop (Suc p) = 0" by simp
    have "p + tsz (Suc k) + 1 = tsz (Suc (Suc k))" using top by (simp add: tsz_Suc)
    then have b: "hloop (p + tsz (Suc k) + 1) = Suc k" by (simp add: hloop_tsz)
    have "hloop (p + tsz (Suc k)) = hloop (tsz (Suc k))"
      unfolding top by (rule hloop_shift) (simp_all add: tsz_Suc)
    then have c: "hloop (p + tsz (Suc k)) = k" by (simp add: hloop_tsz)
    show ?thesis using a b c top by (simp add: hloop_tsz)
  next
    case (right k q)
    have hq: "hloop p = hloop q" using right by (simp add: hloop_shift)
    show ?thesis
    proof (cases "q = tsz k")
      case True
      have kpos: "0 < k" using right True by (cases k) auto
      then obtain k' where k': "k = Suc k'" by (cases k) auto
      have g: "hloop p = k'" using hq True by (simp add: k' hloop_tsz)
      have "Suc p = tsz (Suc k)" using right True by (simp add: tsz_Suc)
      then have a: "hloop (Suc p) = Suc k'" by (simp add: hloop_tsz k')
      have b: "tsz (Suc k') < p" using right True kpos tsz_pos[of k] by (simp add: k')
      have "p - tsz (Suc k') = tsz (Suc k')" using right True by (simp add: k')
      then have c: "hloop (p - tsz (Suc k')) = k'" by (simp add: hloop_tsz)
      show ?thesis using a b c g by simp
    next
      case False
      then have lt: "q < tsz k" using right by simp
      have sp: "hloop (Suc p) = hloop (Suc q)"
        using lt right(3) by (simp add: hloop_shift_Suc)
      have IH: "(hloop (Suc q) = Suc (hloop q) \<and> tsz (Suc (hloop q)) < q
            \<and> hloop (q - tsz (Suc (hloop q))) = hloop q)
       \<or> (hloop (Suc q) = 0 \<and> hloop (q + tsz (Suc (hloop q)) + 1) = Suc (hloop q)
            \<and> hloop (q + tsz (Suc (hloop q))) = hloop q)"
        using right by (intro less.IH) auto
      then show ?thesis
      proof
        assume r: "hloop (Suc q) = Suc (hloop q) \<and> tsz (Suc (hloop q)) < q
            \<and> hloop (q - tsz (Suc (hloop q))) = hloop q"
        have e: "p - tsz (Suc (hloop q)) = tsz k + (q - tsz (Suc (hloop q)))"
          using r right by simp
        have "hloop (tsz k + (q - tsz (Suc (hloop q)))) = hloop (q - tsz (Suc (hloop q)))"
          using r right by (intro hloop_shift) auto
        with e have "hloop (p - tsz (Suc (hloop q))) = hloop q" using r by simp
        moreover have "tsz (Suc (hloop q)) < p" using r right by simp
        ultimately show ?thesis using r sp hq by simp
      next
        assume l: "hloop (Suc q) = 0 \<and> hloop (q + tsz (Suc (hloop q)) + 1) = Suc (hloop q)
            \<and> hloop (q + tsz (Suc (hloop q))) = hloop q"
        have bd: "q + tsz (Suc (hloop q)) + 1 \<le> tsz k"
          using right lt l by (intro ltype_bound) auto
        have "hloop (p + tsz (Suc (hloop q)) + 1) = hloop (tsz k + (q + tsz (Suc (hloop q)) + 1))"
          using right by (simp add: add.assoc)
        also have "\<dots> = hloop (q + tsz (Suc (hloop q)) + 1)"
          using bd by (intro hloop_shift) auto
        finally have a: "hloop (p + tsz (Suc (hloop q)) + 1) = Suc (hloop q)" using l by simp
        have "hloop (p + tsz (Suc (hloop q))) = hloop (tsz k + (q + tsz (Suc (hloop q))))"
          using right by (simp add: add.assoc)
        also have "\<dots> = hloop (q + tsz (Suc (hloop q)))"
          using bd right by (intro hloop_shift) auto
        finally have b: "hloop (p + tsz (Suc (hloop q))) = hloop q" using l by simp
        show ?thesis using a b l sp hq by simp
      qed
    qed
  qed
qed

lemma to_int32_id: "- (2 ^ 31) \<le> x \<Longrightarrow> x < 2 ^ 31 \<Longrightarrow> to_int32 x = x"
  by (simp add: to_int32_def)

lemma to_int32_pow2: "k \<le> 30 \<Longrightarrow> to_int32 (2 ^ k) = 2 ^ k"
proof -
  assume "k \<le> 30"
  then have a: "(2::int) ^ k \<le> 1073741824" using power_increasing[of k 30 "2::int"] by simp
  have b: "0 \<le> (2::int) ^ k" by simp
  show ?thesis using a b by (simp add: to_int32_def)
qed

lemma shl_1: "0 \<le> n \<Longrightarrow> n \<le> 30 \<Longrightarrow> shl 1 n = 2 ^ nat n"
proof -
  assume n: "0 \<le> n" "n \<le> 30"
  have m: "n mod 32 = n" using n by simp
  have "to_int32 (2 ^ nat n) = 2 ^ nat n" using n by (intro to_int32_pow2) simp
  then show ?thesis by (simp add: shl_def m to_int32_id)
qed

lemma shl_1_31: "shl 1 31 = - (2 ^ 31)"
  by (simp add: shl_def to_int32_def)

lemma shl_2: "0 \<le> g \<Longrightarrow> g \<le> 29 \<Longrightarrow> shl 2 g = 2 ^ nat (g + 1)"
proof -
  assume g: "0 \<le> g" "g \<le> 29"
  have m: "g mod 32 = g" using g by simp
  have e: "(2::int) * 2 ^ nat g = 2 ^ nat (g + 1)" using g by (simp add: nat_add_distrib)
  have "to_int32 (2 ^ nat (g + 1)) = 2 ^ nat (g + 1)" using g by (intro to_int32_pow2) simp
  then show ?thesis by (simp add: shl_def m to_int32_id e)
qed

lemma bit_length_nat: "bit_length (int n) = Some (int (floorlog 2 n))"
  by (cases "n = 0") (simp_all add: bit_length_def log2_floor_def floorlog_def)

lemma floorlog2_le: "n < 2 ^ w \<Longrightarrow> floorlog 2 n \<le> w"
  by (rule floorlog_leI) auto

lemma index_height_loop_exact:
  "0 < n \<Longrightarrow> n \<le> 2 ^ 31 - 2 \<Longrightarrow> index_height_loop (int n) = Some (int (hloop n))"
proof (induction n rule: less_induct)
  case (less n)
  define b where "b = floorlog 2 n"
  have bpos: "0 < b" using less.prems by (simp add: b_def floorlog2_pos)
  have b31: "b \<le> 31" unfolding b_def using less.prems by (intro floorlog2_le) simp
  have bnd: "2 ^ (b - 1) \<le> n" "n < 2 ^ b"
    using floorlog2_bounds[of n] less.prems by (simp_all add: b_def)
  have ao: "all_ones (int n) = (n = 2 ^ b - 1)"
  proof (cases "b = 31")
    case True
    have "int n \<noteq> - (2 ^ 31) - 1" by simp
    moreover have "n \<noteq> 2 ^ 31 - 1" using less.prems by simp
    ultimately show ?thesis
      by (simp add: all_ones_def shift_count_def bit_length_nat b_def[symmetric] True shl_1_31)
  next
    case False
    then have "int b \<le> 30" using b31 by simp
    then have "shl 1 (int b) = 2 ^ b" using shl_1[of "int b"] by simp
    moreover have "(int n = 2 ^ b - 1) = (n = 2 ^ b - 1)"
    proof -
      have "int (2 ^ b - 1) = 2 ^ b - 1" by (simp add: of_nat_diff)
      then have "(int n = 2 ^ b - 1) = (int n = int (2 ^ b - 1))" by simp
      then show ?thesis by (simp only: of_nat_eq_iff)
    qed
    ultimately show ?thesis
      by (simp add: all_ones_def shift_count_def bit_length_nat b_def[symmetric])
  qed
  show ?case
  proof (cases "n = 2 ^ b - 1")
    case True
    then have "hloop n = b - 1" by (subst hloop.simps) (simp add: b_def)
    moreover have "all_ones (int n)" using ao True by simp
    moreover have "bit_length (int n) = Some (int b)" by (simp add: bit_length_nat b_def)
    ultimately show ?thesis using bpos
      by (subst index_height_loop.simps) (simp add: of_nat_diff)
  next
    case False
    define n' where "n' = n - (2 ^ (b - 1) - 1)"
    have hn: "hloop n = hloop n'" using False by (subst hloop.simps) (simp add: b_def n'_def)
    have b2: "2 \<le> b"
    proof (rule ccontr)
      assume "\<not> 2 \<le> b"
      then have "b = 1" using bpos by simp
      with bnd have "n = 1" by simp
      with False \<open>b = 1\<close> show False by simp
    qed
    have "(2::nat) ^ 1 \<le> 2 ^ (b - 1)" using b2 by (intro power_increasing) auto
    then have p2: "2 \<le> (2::nat) ^ (b - 1)" by simp
    have n'lt: "n' < n" "0 < n'" using bnd p2 by (simp_all add: n'_def)
    have IH: "index_height_loop (int n') = Some (int (hloop n'))"
      using n'lt less.prems by (intro less.IH) auto
    have msb: "most_sig_bit (int n) = 2 ^ (b - 1)"
    proof -
      have "shl 1 (int b - 1) = 2 ^ nat (int b - 1)" using b31 bpos by (intro shl_1) auto
      moreover have "nat (int b - 1) = b - 1" by simp
      ultimately show ?thesis
        by (simp add: most_sig_bit_def shift_count_def bit_length_nat b_def[symmetric])
    qed
    have e: "int n - (2 ^ (b - 1) - 1) = int n'"
      using bnd p2 by (simp add: n'_def of_nat_diff)
    have "\<not> all_ones (int n)" using ao False by simp
    then show ?thesis using msb IH hn e
      by (subst index_height_loop.simps) simp
  qed
qed

lemma index_height_exact:
  "0 \<le> i \<Longrightarrow> i \<le> 2 ^ 31 - 3 \<Longrightarrow> index_height i = Some (int (hloop (nat i + 1)))"
proof -
  assume i: "0 \<le> i" "i \<le> 2 ^ 31 - 3"
  have e: "i + 1 = int (nat i + 1)" using i by simp
  have "index_height_loop (int (nat i + 1)) = Some (int (hloop (nat i + 1)))"
    using i by (intro index_height_loop_exact) auto
  then show ?thesis unfolding index_height_def e .
qed


lemma to_int32_range: "- (2 ^ 31) \<le> to_int32 x \<and> to_int32 x < 2 ^ 31"
proof -
  have "0 \<le> (x + 2 ^ 31) mod 2 ^ 32" "(x + 2 ^ 31) mod 2 ^ 32 < 2 ^ 32"
    by simp_all
  then show ?thesis by (simp add: to_int32_def)
qed

lemma shl_range: "- (2 ^ 31) \<le> shl a b \<and> shl a b < 2 ^ 31"
  unfolding shl_def by (rule to_int32_range)

lemma index_height_loop_Some_bound:
  assumes ret: "index_height_loop pos = Some h"
  shows "pos < 2 ^ 31"
proof (rule index_height_loop.raw_induct[where P = "\<lambda>pos h. pos < 2 ^ 31", OF _ ret], goal_cases)
  case (1 f pos h)
  show ?case
  proof (rule ccontr)
    assume "\<not> pos < 2 ^ 31"
    then have big: "2 ^ 31 \<le> pos" by simp
    then have pos0: "pos \<noteq> 0" "1 \<le> pos" by simp_all
    define b where "b = int (floorlog 2 (nat pos))"
    have bl: "bit_length pos = Some b"
      using pos0 by (simp add: bit_length_def log2_floor_def b_def)
    have "shl 1 (b - 1 + 1) - 1 < 2 ^ 31" using shl_range[of 1 "b - 1 + 1"] by simp
    with big have "pos \<noteq> shl 1 (b - 1 + 1) - 1" by simp
    then have ao: "\<not> all_ones pos" by (simp add: all_ones_def shift_count_def bl Let_def)
    have msb: "most_sig_bit pos = shl 1 (b - 1)" by (simp add: most_sig_bit_def shift_count_def bl)
    from 1(2) have "f (pos - (shl 1 (b - 1) - 1)) = Some h" by (simp add: ao msb)
    then have lt: "pos - (shl 1 (b - 1) - 1) < 2 ^ 31" by (rule 1(1))
    show False
    proof (cases "pos < 2 ^ 32")
      case True
      have "floorlog 2 (nat pos) = Suc 31"
        using big True by (intro floorlog2_eqI) (simp_all add: le_nat_iff nat_less_iff)
      then have "b = 32" by (simp add: b_def)
      then have "shl 1 (b - 1) = - (2 ^ 31)" by (simp add: shl_1_31)
      with lt big show False by simp
    next
      case False
      moreover have "shl 1 (b - 1) < 2 ^ 31" using shl_range[of 1 "b - 1"] by simp
      ultimately show False using lt by simp
    qed
  qed
qed

lemma index_height_diverges: "2 ^ 31 - 1 \<le> i \<Longrightarrow> index_height i = None"
proof (rule ccontr)
  assume i: "2 ^ 31 - 1 \<le> i" and "index_height i \<noteq> None"
  then obtain h where "index_height_loop (i + 1) = Some h" by (auto simp: index_height_def)
  then have "i + 1 < 2 ^ 31" by (rule index_height_loop_Some_bound)
  with i show False by simp
qed

text \<open>
  The remaining index functions over the natural numbers, with exact arithmetic:
  \<open>2 ^ h\<close> for \<open>1 << h\<close>, halving of the peak size by the level \<open>k\<close> of the peak size
  \<open>2 ^ k - 1\<close>.
\<close>

lemma floorlog2_ge2: "1 \<le> s \<Longrightarrow> 2 \<le> floorlog 2 (s + 1)"
  using floorlog_ge_SucI[of 2 1 "s + 1"] by simp

function spec_peaks_loop :: "nat \<Rightarrow> nat \<Rightarrow> nat list" where
  "spec_peaks_loop peak s =
     (if s = 0 then []
      else (peak + (2 ^ (floorlog 2 (s + 1) - 1) - 1) - 1)
             # spec_peaks_loop (peak + (2 ^ (floorlog 2 (s + 1) - 1) - 1))
                 (s - (2 ^ (floorlog 2 (s + 1) - 1) - 1)))"
  by pat_completeness auto
termination
proof (relation "measure snd")
  show "wf (measure snd)" by simp
next
  fix peak s :: nat
  assume "s \<noteq> 0"
  then have "2 \<le> floorlog 2 (s + 1)" by (intro floorlog2_ge2) simp
  then have "(2::nat) ^ 1 \<le> 2 ^ (floorlog 2 (s + 1) - 1)" by (intro power_increasing) auto
  then have "0 < (2::nat) ^ (floorlog 2 (s + 1) - 1) - 1" by simp
  with \<open>s \<noteq> 0\<close>
  show "((peak + (2 ^ (floorlog 2 (s + 1) - 1) - 1), s - (2 ^ (floorlog 2 (s + 1) - 1) - 1)), peak, s)
          \<in> measure snd" by simp
qed

declare spec_peaks_loop.simps [simp del]

definition spec_peaks :: "nat \<Rightarrow> nat list" where
  "spec_peaks i = spec_peaks_loop 0 (i + 1)"

definition spec_index_height :: "nat \<Rightarrow> nat" where
  "spec_index_height i = hloop (i + 1)"

fun spec_leaf_count_loop :: "nat \<Rightarrow> nat \<Rightarrow> nat \<Rightarrow> nat" where
  "spec_leaf_count_loop 0 peakmap s = peakmap"
| "spec_leaf_count_loop (Suc k) peakmap s =
     (if s \<ge> 2 ^ Suc k - 1
      then spec_leaf_count_loop k (2 * peakmap + 1) (s - (2 ^ Suc k - 1))
      else spec_leaf_count_loop k (2 * peakmap) s)"

definition spec_leaf_count :: "nat \<Rightarrow> nat" where
  "spec_leaf_count i = spec_leaf_count_loop (floorlog 2 (i + 1)) 0 (i + 1)"

function spec_mmr_index_loop :: "nat \<Rightarrow> nat \<Rightarrow> nat" where
  "spec_mmr_index_loop sm e =
     (if e > 0
      then spec_mmr_index_loop (sm + (2 ^ floorlog 2 e - 1)) (e - 2 ^ (floorlog 2 e - 1))
      else sm)"
  by pat_completeness auto
termination
  by (relation "measure snd") auto

declare spec_mmr_index_loop.simps [simp del]

definition spec_mmr_index :: "nat \<Rightarrow> nat" where
  "spec_mmr_index e = spec_mmr_index_loop 0 e"

lemma log2_floor_nat: "0 < n \<Longrightarrow> log2_floor (int n) = Some (int (floorlog 2 n - 1))"
  using floorlog2_pos[of n] by (simp add: log2_floor_def of_nat_diff)

lemma peaks_loop_exact:
  "s + 1 < 2 ^ 31 \<Longrightarrow>
   peaks_loop (int peak) ps (int s) = Some (ps @ map int (spec_peaks_loop peak s))"
proof (induction peak s arbitrary: ps rule: spec_peaks_loop.induct)
  case (1 peak s)
  show ?case
  proof (cases "s = 0")
    case True
    then show ?thesis
      by (subst peaks_loop.simps, subst spec_peaks_loop.simps) simp
  next
    case False
    define l where "l = floorlog 2 (s + 1) - 1"
    define hs where "hs = (2::nat) ^ l - 1"
    have fl2: "2 \<le> floorlog 2 (s + 1)" using False by (intro floorlog2_ge2) simp
    have l1: "1 \<le> l" using fl2 by (simp add: l_def)
    have "floorlog 2 (s + 1) \<le> 31" using 1(2) by (intro floorlog2_le) simp
    then have l30: "l \<le> 30" by (simp add: l_def)
    have bnd: "2 ^ l \<le> s + 1" using floorlog2_bounds[of "s + 1"] by (simp add: l_def)
    have "(2::nat) ^ 1 \<le> 2 ^ l" using l1 by (intro power_increasing) auto
    then have p2: "2 \<le> (2::nat) ^ l" by simp
    have hs1: "1 \<le> hs" "hs \<le> s" using p2 bnd by (simp_all add: hs_def)
    have lf: "log2_floor (int s + 1) = Some (int l)"
      using log2_floor_nat[of "s + 1"] by (simp add: l_def add.commute)
    have sh: "shl 1 (int l) - 1 = int hs"
      using shl_1[of "int l"] l30 by (simp add: hs_def of_nat_diff)
    have e1: "int (peak + hs) - 1 = int (peak + hs - 1)" using hs1 by (simp add: of_nat_diff)
    have e2: "int s - int hs = int (s - hs)" using hs1 by (simp add: of_nat_diff)
    have e3: "int peak + int hs = int (peak + hs)" by simp
    have IH: "peaks_loop (int (peak + hs)) (ps @ [int (peak + hs - 1)]) (int (s - hs))
        = Some ((ps @ [int (peak + hs - 1)]) @ map int (spec_peaks_loop (peak + hs) (s - hs)))"
    proof -
      have rec: "s - hs + 1 < 2 ^ 31" using 1(2) by simp
      show ?thesis
        by (rule 1(1)[folded l_def, folded hs_def]) (use False rec in simp_all)
    qed
    have sp: "spec_peaks_loop peak s = (peak + hs - 1) # spec_peaks_loop (peak + hs) (s - hs)"
      using False by (subst spec_peaks_loop.simps) (simp add: hs_def l_def)
    have u: "peaks_loop (int peak) ps (int s)
        = peaks_loop (int peak + (shl 1 (int l) - 1)) (ps @ [int peak + (shl 1 (int l) - 1) - 1])
            (int s - (shl 1 (int l) - 1))"
      using False by (subst peaks_loop.simps) (simp add: lf)
    have step: "peaks_loop (int peak) ps (int s)
        = peaks_loop (int (peak + hs)) (ps @ [int (peak + hs - 1)]) (int (s - hs))"
      by (simp only: u sh e3 e1 e2)
    show ?thesis unfolding step IH sp by simp
  qed
qed

lemma peaks_exact:
  "0 \<le> i \<Longrightarrow> i \<le> 2 ^ 31 - 3 \<Longrightarrow> peaks i = Some (map int (spec_peaks (nat i)))"
proof -
  assume i: "0 \<le> i" "i \<le> 2 ^ 31 - 3"
  have e: "i + 1 = int (nat i + 1)" using i by simp
  have "peaks_loop (int 0) [] (int (nat i + 1)) = Some ([] @ map int (spec_peaks_loop 0 (nat i + 1)))"
    using i by (intro peaks_loop_exact) auto
  then show ?thesis unfolding peaks_def spec_peaks_def e by simp
qed

lemma mmr_index_loop_exact:
  "e < 2 ^ 30 \<Longrightarrow> mmr_index_loop (int sm) (int e) = Some (int (spec_mmr_index_loop sm e))"
proof (induction sm e rule: spec_mmr_index_loop.induct)
  case (1 sm e)
  show ?case
  proof (cases "e = 0")
    case True
    then show ?thesis by (subst mmr_index_loop.simps, subst spec_mmr_index_loop.simps) simp
  next
    case False
    define h where "h = floorlog 2 e"
    have hpos: "0 < h" using False by (simp add: h_def floorlog2_pos)
    have h30: "h \<le> 30" unfolding h_def using 1(2) by (intro floorlog2_le) simp
    have bnd: "2 ^ (h - 1) \<le> e" using floorlog2_bounds[of e] False by (simp add: h_def)
    have s1: "shl 1 (int h) - 1 = int (2 ^ h - 1)"
      using shl_1[of "int h"] h30 by (simp add: of_nat_diff)
    have "shl 1 (int h - 1) = 2 ^ nat (int h - 1)" using h30 hpos by (intro shl_1) auto
    moreover have "nat (int h - 1) = h - 1" by simp
    ultimately have s2: "shl 1 (int h - 1) = int (2 ^ (h - 1))" by simp
    have e2: "int e - int (2 ^ (h - 1)) = int (e - 2 ^ (h - 1))" using bnd by (simp add: of_nat_diff)
    have IH: "mmr_index_loop (int (sm + (2 ^ h - 1))) (int (e - 2 ^ (h - 1)))
        = Some (int (spec_mmr_index_loop (sm + (2 ^ h - 1)) (e - 2 ^ (h - 1))))"
      using False 1(2) unfolding h_def by (intro 1(1)) auto
    have sp: "spec_mmr_index_loop sm e = spec_mmr_index_loop (sm + (2 ^ h - 1)) (e - 2 ^ (h - 1))"
      using False by (subst spec_mmr_index_loop.simps) (simp add: h_def)
    have "mmr_index_loop (int sm) (int e)
        = mmr_index_loop (int sm + int (2 ^ h - 1)) (int e - int (2 ^ (h - 1)))"
      using False by (subst mmr_index_loop.simps) (simp add: bit_length_nat h_def[symmetric] s1 s2)
    also have "int sm + int (2 ^ h - 1) = int (sm + (2 ^ h - 1))" by (simp only: of_nat_add)
    finally show ?thesis unfolding e2 IH sp .
  qed
qed

lemma mmr_index_exact:
  "0 \<le> e \<Longrightarrow> e < 2 ^ 30 \<Longrightarrow> mmr_index e = Some (int (spec_mmr_index (nat e)))"
proof -
  assume e: "0 \<le> e" "e < 2 ^ 30"
  have "mmr_index_loop (int 0) (int (nat e)) = Some (int (spec_mmr_index_loop 0 (nat e)))"
    using e by (intro mmr_index_loop_exact) auto
  then show ?thesis using e by (simp add: mmr_index_def spec_mmr_index_def)
qed

fun spec_ones :: "nat \<Rightarrow> nat" where
  "spec_ones x = (if x = 0 then 0 else x mod 2 + spec_ones (x div 2))"

declare spec_ones.simps [simp del]

function spec_trailing_zeros :: "nat \<Rightarrow> nat" where
  "spec_trailing_zeros x =
     (if x = 0 then 64 else if odd x then 0 else 1 + spec_trailing_zeros (x div 2))"
  by pat_completeness auto
termination
  by (relation "measure id") auto

declare spec_trailing_zeros.simps [simp del]

lemma sshr_1: "0 \<le> x \<Longrightarrow> x < 2 ^ 31 \<Longrightarrow> sshr x 1 = x div 2"
  by (simp add: sshr_def to_int32_id)

lemma shl_by_1: "0 \<le> x \<Longrightarrow> x < 2 ^ 30 \<Longrightarrow> shl x 1 = 2 * x"
  by (simp add: shl_def to_int32_id)

lemma band_1: "0 \<le> x \<Longrightarrow> x < 2 ^ 31 \<Longrightarrow> band x 1 = x mod 2"
  by (simp add: band_def to_int32_id and_one_eq)

lemma bor_1: "0 \<le> x \<Longrightarrow> x < 2 ^ 31 \<Longrightarrow> even x \<Longrightarrow> bor x 1 = x + 1"
  by (simp add: bor_def to_int32_id or_one_eq)

lemma tsz_lt_pow: "tsz k < 2 ^ k"
  using tsz_plus1[of k] by simp

lemma int_tsz: "int (tsz k) = 2 ^ k - 1"
  by (simp add: tsz_def of_nat_diff)

lemma leaf_count_loop_exact:
  "k \<le> 30 \<Longrightarrow> pm < 2 ^ (30 - k) \<Longrightarrow>
   leaf_count_loop (int (tsz k)) (int pm) (int s) = int (spec_leaf_count_loop k pm s)"
proof (induction k arbitrary: pm s)
  case 0
  then show ?case by simp
next
  case (Suc k)
  have k: "k \<le> 30" "Suc k \<le> 30" using Suc.prems by simp_all
  have pm: "2 * pm + 1 < 2 ^ (30 - k)"
  proof -
    have "30 - k = Suc (30 - Suc k)" using k by simp
    then have "(2::nat) ^ (30 - k) = 2 * 2 ^ (30 - Suc k)" by simp
    with Suc.prems(2) show ?thesis by simp
  qed
  have "(2::nat) ^ (30 - k) \<le> 2 ^ 30" by (intro power_increasing) auto
  with pm have pm30: "2 * pm + 1 < 2 ^ 30" by simp
  have ts: "tsz (Suc k) < 2 ^ 30"
    using tsz_lt_pow[of "Suc k"] power_increasing[of "Suc k" 30 "2::nat"] k by simp
  have pos: "0 < int (tsz (Suc k))" using tsz_pos[of "Suc k"] by simp
  have half: "sshr (int (tsz (Suc k))) 1 = int (tsz k)"
    using ts by (subst sshr_1) (simp_all add: tsz_Suc)
  have sh: "shl (int pm) 1 = int (2 * pm)" using pm30 by (subst shl_by_1) simp_all
  have bo: "bor (int (2 * pm)) 1 = int (2 * pm + 1)" using pm30 by (subst bor_1) simp_all
  have IH1: "leaf_count_loop (int (tsz k)) (int (2 * pm + 1)) (int (s - tsz (Suc k)))
      = int (spec_leaf_count_loop k (2 * pm + 1) (s - tsz (Suc k)))"
    using k pm by (intro Suc.IH) auto
  have IH2: "leaf_count_loop (int (tsz k)) (int (2 * pm)) (int s)
      = int (spec_leaf_count_loop k (2 * pm) s)"
    using k pm by (intro Suc.IH) auto
  show ?case
  proof (cases "s \<ge> tsz (Suc k)")
    case True
    then have e: "int s - int (tsz (Suc k)) = int (s - tsz (Suc k))" by (simp add: of_nat_diff)
    have "leaf_count_loop (int (tsz (Suc k))) (int pm) (int s)
        = leaf_count_loop (int (tsz k)) (int (2 * pm + 1)) (int (s - tsz (Suc k)))"
      using True pos by (subst leaf_count_loop.simps) (simp only: half sh bo e of_nat_le_iff if_True)
    also have "\<dots> = int (spec_leaf_count_loop (Suc k) pm s)"
      using True by (simp only: IH1) (simp add: tsz_def)
    finally show ?thesis .
  next
    case False
    have "leaf_count_loop (int (tsz (Suc k))) (int pm) (int s)
        = leaf_count_loop (int (tsz k)) (int (2 * pm)) (int s)"
      using False pos by (subst leaf_count_loop.simps) (simp only: half sh of_nat_le_iff if_True if_False)
    also have "\<dots> = int (spec_leaf_count_loop (Suc k) pm s)"
      using False by (simp only: IH2) (simp add: tsz_def)
    finally show ?thesis .
  qed
qed

lemma leaf_count_exact:
  "0 \<le> i \<Longrightarrow> i + 1 < 2 ^ 30 \<Longrightarrow> leaf_count i = Some (int (spec_leaf_count (nat i)))"
proof -
  assume i: "0 \<le> i" "i + 1 < 2 ^ 30"
  define s where "s = nat i + 1"
  define b where "b = floorlog 2 s"
  have e: "i + 1 = int s" using i by (simp add: s_def)
  have b30: "b \<le> 30" unfolding b_def using i by (intro floorlog2_le) (simp add: s_def)
  have ps: "shl 1 (int b) - 1 = int (tsz b)" using shl_1[of "int b"] b30 by (simp add: int_tsz)
  have bl: "bit_length (i + 1) = Some (int b)" unfolding e b_def by (rule bit_length_nat)
  have sl: "spec_leaf_count (nat i) = spec_leaf_count_loop b 0 s"
    by (simp add: spec_leaf_count_def b_def s_def)
  have "leaf_count_loop (int (tsz b)) 0 (int s) = int (spec_leaf_count_loop b 0 s)"
    using leaf_count_loop_exact[of b 0 s] b30 by simp
  then have "leaf_count_loop (shl 1 (int b) - 1) 0 (i + 1) = int (spec_leaf_count (nat i))"
    by (simp only: ps e sl)
  then show ?thesis
    unfolding leaf_count_def Let_def bl by (simp add: shift_count_def)
qed

lemma ones_loop_exact:
  "x < 2 ^ 31 \<Longrightarrow> ones_loop (int c) (int x) = Some (int (c + spec_ones x))"
proof (induction x arbitrary: c rule: spec_ones.induct)
  case (1 x)
  show ?case
  proof (cases "x = 0")
    case True
    then show ?thesis by (subst ones_loop.simps, subst spec_ones.simps) simp
  next
    case False
    have b: "band (int x) 1 = int (x mod 2)" using 1(2) by (subst band_1) (simp_all add: zmod_int)
    have h: "sshr (int x) 1 = int (x div 2)" using 1(2) by (subst sshr_1) (simp_all add: zdiv_int)
    have IH: "ones_loop (int (c + x mod 2)) (int (x div 2)) = Some (int (c + x mod 2 + spec_ones (x div 2)))"
      using False 1(2) by (intro 1(1)) auto
    have sp: "spec_ones x = x mod 2 + spec_ones (x div 2)"
      using False by (subst spec_ones.simps) simp
    have "ones_loop (int c) (int x) = ones_loop (int c + int (x mod 2)) (int (x div 2))"
      using False by (subst ones_loop.simps) (simp add: b h)
    also have "int c + int (x mod 2) = int (c + x mod 2)" by (simp only: of_nat_add)
    finally show ?thesis unfolding IH sp by (simp add: add.assoc)
  qed
qed

lemma ones_exact: "0 \<le> x \<Longrightarrow> x < 2 ^ 31 \<Longrightarrow> ones x = Some (int (spec_ones (nat x)))"
  using ones_loop_exact[of "nat x" 0] by (simp add: ones_def)

lemma and_neg_self: "0 < x \<Longrightarrow> int x AND - int x = 2 ^ spec_trailing_zeros x"
proof (induction x rule: spec_trailing_zeros.induct)
  case (1 x)
  show ?case
  proof (cases "odd x")
    case True
    then obtain y where y: "x = 2 * y + 1" by (auto elim: oddE)
    have tz: "spec_trailing_zeros x = 0" using True 1(2) by (subst spec_trailing_zeros.simps) simp
    have "int x AND - int x = 1"
    proof (cases "y = 0")
      case True
      then show ?thesis by (simp add: y)
    next
      case False
      have d: "(- int x) div 2 = NOT (int y)" unfolding not_int_def using y by presburger
      have m: "(- int x) mod 2 = 1" "int x mod 2 = 1" "int x div 2 = int y"
        using y by presburger+
      have ne: "int x \<noteq> 0" "- int x \<noteq> 0" "int x \<noteq> - 1" "- int x \<noteq> - 1"
        using False by (simp_all add: y)
      show ?thesis using 1(2) by (subst and_int_unfold) (simp add: ne m d)
    qed
    then show ?thesis by (simp add: tz)
  next
    case False
    then obtain y where y: "x = 2 * y" by (auto elim: evenE)
    have ypos: "0 < y" using 1(2) y by simp
    have tz: "spec_trailing_zeros x = 1 + spec_trailing_zeros y"
      using False 1(2) by (subst spec_trailing_zeros.simps) (simp add: y)
    have IH: "int y AND - int y = 2 ^ spec_trailing_zeros y"
      using 1(1)[OF _ False] 1(2) ypos by (simp add: y)
    have m: "(- int x) mod 2 = 0" "int x mod 2 = 0" "int x div 2 = int y" "(- int x) div 2 = - int y"
      using y by presburger+
    have ne: "int x \<noteq> 0" "- int x \<noteq> 0" "int x \<noteq> - 1" "- int x \<noteq> - 1"
      using ypos by (simp_all add: y)
    have x1: "x \<noteq> Suc 0" "0 < x" using y ypos by simp_all
    show ?thesis using x1 by (subst and_int_unfold) (simp add: ne m IH tz)
  qed
qed

lemma spec_trailing_zeros_le: "0 < x \<Longrightarrow> 2 ^ spec_trailing_zeros x \<le> x"
proof (induction x rule: spec_trailing_zeros.induct)
  case (1 x)
  show ?case
  proof (cases "odd x")
    case True
    then show ?thesis using 1(2) by (subst spec_trailing_zeros.simps) simp
  next
    case False
    then obtain y where y: "x = 2 * y" by (auto elim: evenE)
    have "2 ^ spec_trailing_zeros y \<le> y" using 1(1)[OF _ False] 1(2) by (simp add: y)
    then show ?thesis using False 1(2) by (subst spec_trailing_zeros.simps) (simp add: y)
  qed
qed

lemma take_bit_to_int32: "take_bit 32 (to_int32 y) = take_bit 32 y"
  by (simp add: take_bit_eq_mod to_int32_def mod_simps)

lemma trailing_zeros64_exact:
  assumes "0 \<le> x" "x \<le> 2 ^ 32 - 1"
  shows "trailing_zeros64 x = Inr (int (spec_trailing_zeros (nat x)))"
proof (cases "x = 0")
  case True
  then show ?thesis by (simp add: trailing_zeros64_def spec_trailing_zeros.simps)
next
  case False
  define n where "n = nat x"
  define t where "t = spec_trailing_zeros n"
  have n: "0 < n" "x = int n" "n < 2 ^ 32" using assms False by (simp_all add: n_def)
  have "(2::nat) ^ t \<le> n" unfolding t_def using n by (intro spec_trailing_zeros_le)
  with n have lt: "(2::nat) ^ t < 2 ^ 32" by simp
  have t32: "t < 32"
  proof (rule ccontr)
    assume "\<not> t < 32"
    then have "(2::nat) ^ 32 \<le> 2 ^ t" by (intro power_increasing) auto
    with lt show False by simp
  qed
  have "to_uint32 (band x (- x)) = take_bit 32 (to_int32 x AND to_int32 (- x))"
    by (simp add: to_uint32_def band_def take_bit_eq_mod)
  also have "\<dots> = take_bit 32 (x AND - x)"
    by (simp only: take_bit_and take_bit_to_int32)
  also have "x AND - x = 2 ^ t" unfolding n(2) t_def using n(1) by (rule and_neg_self)
  also have "take_bit 32 ((2::int) ^ t) = 2 ^ t"
  proof -
    have "(2::int) ^ t < 2 ^ 32" using t32 by (intro power_strict_increasing) auto
    then show ?thesis by (simp add: take_bit_eq_mod)
  qed
  finally have u: "to_uint32 (band x (- x)) = 2 ^ t" .
  have "floorlog 2 (nat (2 ^ t)) = Suc t"
    by (rule floorlog2_eqI) (simp_all add: nat_power_eq)
  then have "clz32 (band x (- x)) = 31 - int t" by (simp add: clz32_def u)
  then show ?thesis using assms False by (simp add: trailing_zeros64_def n_def t_def)
qed

lemma most_sig_bit_exact:
  "0 < x \<Longrightarrow> x < 2 ^ 31 \<Longrightarrow> most_sig_bit x = int (2 ^ (floorlog 2 (nat x) - 1))"
proof -
  assume x: "0 < x" "x < 2 ^ 31"
  define n where "n = nat x"
  have n: "x = int n" "0 < n" "n < 2 ^ 31" using x by (simp_all add: n_def)
  define b where "b = floorlog 2 n"
  have bpos: "0 < b" using n by (simp add: b_def floorlog2_pos)
  have b31: "b \<le> 31" unfolding b_def using n by (intro floorlog2_le) simp
  have "shl 1 (int b - 1) = 2 ^ nat (int b - 1)" using b31 bpos by (intro shl_1) auto
  moreover have "nat (int b - 1) = b - 1" by simp
  ultimately show ?thesis
    unfolding n(1)
    by (simp add: most_sig_bit_def shift_count_def bit_length_nat b_def[symmetric] n_def[symmetric])
qed

lemma all_ones_exact:
  "0 < x \<Longrightarrow> x \<le> 2 ^ 31 - 2 \<Longrightarrow> all_ones x = (nat x = 2 ^ floorlog 2 (nat x) - 1)"
proof -
  assume x: "0 < x" "x \<le> 2 ^ 31 - 2"
  define n where "n = nat x"
  have n: "x = int n" "0 < n" "n \<le> 2 ^ 31 - 2" using x by (simp_all add: n_def)
  define b where "b = floorlog 2 n"
  have b31: "b \<le> 31" unfolding b_def using n by (intro floorlog2_le) simp
  have "all_ones (int n) = (n = 2 ^ b - 1)"
  proof (cases "b = 31")
    case True
    have "int n \<noteq> - (2 ^ 31) - 1" by simp
    moreover have "n \<noteq> 2 ^ 31 - 1" using n by simp
    ultimately show ?thesis
      by (simp add: all_ones_def shift_count_def bit_length_nat b_def[symmetric] True shl_1_31)
  next
    case False
    then have "int b \<le> 30" using b31 by simp
    then have "shl 1 (int b) = 2 ^ b" using shl_1[of "int b"] by simp
    moreover have "(int n = 2 ^ b - 1) = (n = 2 ^ b - 1)"
    proof -
      have "int (2 ^ b - 1) = 2 ^ b - 1" by (simp add: of_nat_diff)
      then have "(int n = 2 ^ b - 1) = (int n = int (2 ^ b - 1))" by simp
      then show ?thesis by (simp only: of_nat_eq_iff)
    qed
    ultimately show ?thesis
      by (simp add: all_ones_def shift_count_def bit_length_nat b_def[symmetric])
  qed
  then show ?thesis unfolding n(1) by (simp add: b_def n_def[symmetric])
qed

lemma spec_mmr_index_pow30: "spec_mmr_index (2 ^ 30) = 2 ^ 31 - 1"
proof -
  define e :: nat where "e = 2 ^ 30"
  have fl: "floorlog 2 e = Suc 30" unfolding e_def by (rule floorlog2_eqI) simp_all
  have epos: "0 < e" by (simp add: e_def)
  have "spec_mmr_index_loop 0 e = spec_mmr_index_loop (0 + (2 ^ floorlog 2 e - 1)) (e - 2 ^ (floorlog 2 e - 1))"
    using epos by (subst spec_mmr_index_loop.simps) simp
  also have "\<dots> = spec_mmr_index_loop (2 ^ 31 - 1) 0" unfolding fl by (simp add: e_def)
  also have "\<dots> = 2 ^ 31 - 1" by (subst spec_mmr_index_loop.simps) simp
  finally show ?thesis by (simp add: spec_mmr_index_def e_def)
qed

text \<open>
  C10: the index algebra is to be exact over the 64-bit index space, without silent
  truncation.  The code computes \<open>1 << h\<close> with the 32-bit shift of JavaScript and has no
  guard: \<open>mmr_index\<close> of the leaf \<open>2 ^ 30\<close> returns \<open>-2147483649\<close> where the exact node index is
  \<open>2 ^ 31 - 1\<close>, \<open>leaf_count\<close> of the last node of an MMR of \<open>2 ^ 30\<close> nodes returns 0,
  \<open>index_height\<close> of the index \<open>2 ^ 31 - 1\<close> does not return, and \<open>trailing_zeros64\<close> refuses
  \<open>2 ^ 32\<close>.  The tile constructor reaches the first of these at the tile \<open>65536\<close> of the
  default tile height 14.
\<close>

theorem C10_index_algebra_wraps:
  "mmr_index (2 ^ 30) = Some (- 2147483649) \<and> spec_mmr_index (2 ^ 30) = 2147483647
   \<and> leaf_count (2 ^ 30 - 1) = Some 0
   \<and> index_height (2 ^ 31 - 1) = None
   \<and> trailing_zeros64 (2 ^ 32) = Inl RangeError"
proof -
  define e :: int where "e = 2 ^ 30"
  have epos: "0 < e" by (simp add: e_def)
  have "floorlog 2 (nat e) = Suc 30" unfolding e_def by (rule floorlog2_eqI) simp_all
  then have bl: "bit_length e = Some 31"
    using bit_length_nat[of "nat e"] epos by simp
  have "mmr_index_loop 0 e = mmr_index_loop (0 + (shl 1 31 - 1)) (e - shl 1 (31 - 1))"
    using epos by (subst mmr_index_loop.simps) (simp add: bl)
  also have "\<dots> = mmr_index_loop (- 2147483649) 0"
    using shl_1[of 30] by (simp add: shl_1_31 e_def)
  also have "\<dots> = Some (- 2147483649)" by (subst mmr_index_loop.simps) simp
  finally have 1: "mmr_index (2 ^ 30) = Some (- 2147483649)" by (simp add: mmr_index_def e_def)
  have 2: "spec_mmr_index (2 ^ 30) = 2147483647" using spec_mmr_index_pow30 by simp
  have "leaf_count (e - 1) = Some (leaf_count_loop (shl 1 31 - 1) 0 e)"
    by (simp add: leaf_count_def bl shift_count_def)
  also have "\<dots> = Some 0" by (simp add: shl_1_31)
  finally have 3: "leaf_count (2 ^ 30 - 1) = Some 0" by (simp add: e_def)
  have 4: "index_height (2 ^ 31 - 1) = None" by (rule index_height_diverges) simp
  have 5: "trailing_zeros64 (2 ^ 32) = Inl RangeError" by (simp add: trailing_zeros64_def)
  from 1 2 3 4 5 show ?thesis by blast
qed

text \<open>
  C7 (as stated): a replay step of \<open>included_root\<close> hashes \<open>be64(i+2) || root || sibling\<close> for
  a left child \<open>i\<close>.  It does not: node 0 is a left child of height 0 with parent 2, and the
  step hashes the parent's position \<open>3\<close>, not \<open>0 + 2\<close>.
\<close>

theorem C7_counterexample:
  "included_root (\<lambda>x. x) 0 [1] [[2]] = Some (toBE64 3 @ [1] @ [2])
   \<and> included_root (\<lambda>x. x) 0 [1] [[2]] \<noteq> Some (toBE64 (0 + 2) @ [1] @ [2])
   \<and> included_root (\<lambda>x. x) 0 [1] [[2]] \<noteq> Some (toBE64 (2 + 2) @ [1] @ [2])"
  by code_simp

text \<open>
  C7 (amended): each replay step of \<open>included_root\<close> hashes the position of the parent,
  which is the parent's index plus one.  For a right child \<open>i\<close> (the node after \<open>i\<close> is
  higher than \<open>g\<close>) the parent is \<open>i + 1\<close> and the new root is
  \<open>H(be64(i+2) || sibling || root)\<close>; for a left child the parent is \<open>i + (2 << g)\<close> and the
  new root is \<open>H(be64(i + (2 << g) + 1) || root || sibling)\<close>, where \<open>2 << g\<close> is \<open>2 ^ (g+1)\<close>
  for \<open>0 \<le> g \<le> 29\<close>.  In both cases \<open>g\<close> becomes \<open>g + 1\<close>, and the branch and the new
  \<open>i\<close> and \<open>g\<close> are those of the step of \<open>inclusion_proof_path\<close> that recorded the sibling.
\<close>

theorem C7_included_root_step:
  assumes "index_height (i + 1) = Some h"
  shows "(h > g \<longrightarrow>
            included_root_loop hasher i g rt (sibling # pf)
              = included_root_loop hasher (i + 1) (g + 1)
                  (hasher (toBE64 (i + 2) @ sibling @ rt)) pf
          \<and> inclusion_proof_path_loop i c g path
              = (if i - shl 2 g + 1 > c then Some path
                 else inclusion_proof_path_loop (i + 1) c (g + 1) (path @ [i - shl 2 g + 1])))
       \<and> (\<not> h > g \<longrightarrow>
            included_root_loop hasher i g rt (sibling # pf)
              = included_root_loop hasher (i + shl 2 g) (g + 1)
                  (hasher (toBE64 (i + shl 2 g + 1) @ rt @ sibling)) pf
          \<and> inclusion_proof_path_loop i c g path
              = (if i + shl 2 g - 1 > c then Some path
                 else inclusion_proof_path_loop (i + shl 2 g) c (g + 1) (path @ [i + shl 2 g - 1])))
       \<and> (0 \<le> g \<and> g \<le> 29 \<longrightarrow> shl 2 g = 2 ^ nat (g + 1))"
proof -
  have a: "i + 1 + 1 = i + 2" by simp
  have r: "h > g \<longrightarrow>
      included_root_loop hasher i g rt (sibling # pf)
        = included_root_loop hasher (i + 1) (g + 1) (hasher (toBE64 (i + 2) @ sibling @ rt)) pf"
    using assms by (simp add: hash_pos_pair64_def concat_bytes_def a)
  have l: "\<not> h > g \<longrightarrow>
      included_root_loop hasher i g rt (sibling # pf)
        = included_root_loop hasher (i + shl 2 g) (g + 1)
            (hasher (toBE64 (i + shl 2 g + 1) @ rt @ sibling)) pf"
    using assms by (simp add: hash_pos_pair64_def concat_bytes_def)
  have pr: "h > g \<longrightarrow> inclusion_proof_path_loop i c g path
      = (if i - shl 2 g + 1 > c then Some path
         else inclusion_proof_path_loop (i + 1) c (g + 1) (path @ [i - shl 2 g + 1]))"
    using assms by (subst inclusion_proof_path_loop.simps) (simp add: Let_def)
  have pl: "\<not> h > g \<longrightarrow> inclusion_proof_path_loop i c g path
      = (if i + shl 2 g - 1 > c then Some path
         else inclusion_proof_path_loop (i + shl 2 g) c (g + 1) (path @ [i + shl 2 g - 1]))"
    using assms by (subst inclusion_proof_path_loop.simps) (simp add: Let_def)
  have s: "0 \<le> g \<and> g \<le> 29 \<longrightarrow> shl 2 g = 2 ^ nat (g + 1)"
    using shl_2[of g] by simp
  from r l pr pl s show ?thesis by blast
qed

lemma index_height_1: "index_height 1 = Some 0"
  by code_simp

lemma index_height_2: "index_height 2 = Some 1"
  by code_simp

theorem C7_witness:
  "included_root_loop (\<lambda>x. x) 0 0 [1] [[2]] = Some (toBE64 3 @ [1] @ [2])
   \<and> included_root_loop (\<lambda>x. x) 1 0 [1] [[2]] = Some (toBE64 3 @ [2] @ [1])"
proof -
  have s: "shl 2 0 = 2" by (simp add: shl_def to_int32_def)
  have h1: "index_height (0 + 1) = Some 0" using index_height_1 by simp
  have h2: "index_height (1 + 1) = Some 1" using index_height_2 by simp
  from C7_included_root_step[OF h1, where g = 0 and hasher = "\<lambda>x. x" and rt = "[1]"
      and sibling = "[2]" and pf = "[]"]
  have "included_root_loop (\<lambda>x. x) 0 0 [1] [[2]] = Some (toBE64 3 @ [1] @ [2])"
    by (simp add: s)
  moreover from C7_included_root_step[OF h2, where g = 0 and hasher = "\<lambda>x. x" and rt = "[1]"
      and sibling = "[2]" and pf = "[]"]
  have "included_root_loop (\<lambda>x. x) 1 0 [1] [[2]] = Some (toBE64 3 @ [2] @ [1])"
    by simp
  ultimately show ?thesis by simp
qed

subsection \<open>The size of the MMR with a given number of leaves\<close>

lemma spec_mmr_index_loop_acc: "spec_mmr_index_loop sm e = sm + spec_mmr_index_loop 0 e"
proof (induction e arbitrary: sm rule: less_induct)
  case (less e)
  show ?case
  proof (cases "e = 0")
    case True
    then show ?thesis by (simp add: spec_mmr_index_loop.simps)
  next
    case False
    define a where "a = (2::nat) ^ floorlog 2 e - 1"
    define e' where "e' = e - 2 ^ (floorlog 2 e - 1)"
    have lt: "e' < e" using False by (simp add: e'_def)
    have 1: "spec_mmr_index_loop (sm + a) e' = sm + a + spec_mmr_index_loop 0 e'"
      using lt by (rule less.IH)
    have 2: "spec_mmr_index_loop (0 + a) e' = 0 + a + spec_mmr_index_loop 0 e'"
      using lt by (rule less.IH)
    have 3: "spec_mmr_index_loop sm e = spec_mmr_index_loop (sm + a) e'"
      using False by (subst spec_mmr_index_loop.simps) (simp add: a_def e'_def)
    have 4: "spec_mmr_index_loop 0 e = spec_mmr_index_loop (0 + a) e'"
      using False by (subst spec_mmr_index_loop.simps) (simp add: a_def e'_def)
    show ?thesis unfolding 3 4 1 2 by simp
  qed
qed

lemma spec_mmr_index_0 [simp]: "spec_mmr_index 0 = 0"
  by (simp add: spec_mmr_index_def spec_mmr_index_loop.simps)

lemma spec_mmr_index_top:
  assumes "2 ^ k \<le> e" "e < 2 ^ Suc k"
  shows "spec_mmr_index e = tsz (Suc k) + spec_mmr_index (e - 2 ^ k)"
proof -
  have fl: "floorlog 2 e = Suc k" using assms by (rule floorlog2_eqI)
  have epos: "0 < e" using assms(1) by (cases "e = 0") auto
  have "spec_mmr_index_loop 0 e
      = spec_mmr_index_loop (0 + (2 ^ floorlog 2 e - 1)) (e - 2 ^ (floorlog 2 e - 1))"
    using epos by (subst spec_mmr_index_loop.simps) simp
  also have "\<dots> = spec_mmr_index_loop (tsz (Suc k)) (e - 2 ^ k)"
    unfolding fl by (simp add: tsz_def)
  also have "\<dots> = tsz (Suc k) + spec_mmr_index_loop 0 (e - 2 ^ k)"
    by (rule spec_mmr_index_loop_acc)
  finally show ?thesis by (simp add: spec_mmr_index_def)
qed

lemma top_bit_cases [consumes 1, case_names top]:
  assumes "0 < (e::nat)"
  obtains k where "2 ^ k \<le> e" "e < 2 ^ Suc k"
proof -
  define k where "k = floorlog 2 e - 1"
  have "floorlog 2 e = Suc k" using floorlog2_pos[OF assms] by (simp add: k_def)
  with floorlog2_bounds[OF assms] have "2 ^ k \<le> e" "e < 2 ^ Suc k" by simp_all
  then show thesis by (rule that)
qed

lemma spec_mmr_index_bound: "e < 2 ^ k \<Longrightarrow> spec_mmr_index e + k < tsz (Suc k)"
proof (induction k arbitrary: e)
  case 0
  then show ?case by (simp add: tsz_Suc)
next
  case (Suc k)
  show ?case
  proof (cases "e < 2 ^ k")
    case True
    then have "spec_mmr_index e + k < tsz (Suc k)" by (rule Suc.IH)
    then show ?thesis by (simp add: tsz_Suc)
  next
    case False
    then have ge: "2 ^ k \<le> e" by simp
    have "e - 2 ^ k < 2 ^ k" using Suc.prems ge by simp
    then have "spec_mmr_index (e - 2 ^ k) + k < tsz (Suc k)" by (rule Suc.IH)
    moreover have "spec_mmr_index e = tsz (Suc k) + spec_mmr_index (e - 2 ^ k)"
      using ge Suc.prems by (rule spec_mmr_index_top)
    ultimately show ?thesis by (simp add: tsz_Suc)
  qed
qed

lemma spec_mmr_index_le: "spec_mmr_index e \<le> 2 * e \<and> e \<le> spec_mmr_index e"
proof (induction e rule: less_induct)
  case (less e)
  show ?case
  proof (cases "e = 0")
    case True
    then show ?thesis by simp
  next
    case False
    then have "0 < e" by simp
    then show ?thesis
    proof (cases rule: top_bit_cases)
      case (top k)
      have m: "spec_mmr_index e = tsz (Suc k) + spec_mmr_index (e - 2 ^ k)"
        using top by (rule spec_mmr_index_top)
      have "e - 2 ^ k < e" using top by simp
      then have IH: "spec_mmr_index (e - 2 ^ k) \<le> 2 * (e - 2 ^ k)"
        "e - 2 ^ k \<le> spec_mmr_index (e - 2 ^ k)" using less.IH by blast+
      have t: "tsz (Suc k) + 1 = 2 * 2 ^ k" using tsz_plus1[of "Suc k"] by simp
      show ?thesis using m IH t top by linarith
    qed
  qed
qed

lemma spec_mmr_index_lt: "0 < e \<Longrightarrow> spec_mmr_index e < 2 * e"
proof -
  assume "0 < e"
  then show ?thesis
  proof (cases rule: top_bit_cases)
    case (top k)
    have m: "spec_mmr_index e = tsz (Suc k) + spec_mmr_index (e - 2 ^ k)"
      using top by (rule spec_mmr_index_top)
    have "spec_mmr_index (e - 2 ^ k) \<le> 2 * (e - 2 ^ k)" using spec_mmr_index_le by blast
    moreover have t: "tsz (Suc k) + 1 = 2 * 2 ^ k" using tsz_plus1[of "Suc k"] by simp
    ultimately show ?thesis using m top by linarith
  qed
qed




subsection \<open>Counting the leaves of the MMR that ends at a leaf\<close>

lemma spec_leaf_count_loop_size:
  "n < 2 ^ K \<Longrightarrow> d \<le> 1 \<Longrightarrow>
   spec_leaf_count_loop K pm (spec_mmr_index n + d)
     = pm * 2 ^ K + n + (if d = 1 \<and> even n \<and> 0 < K then 1 else 0)"
proof (induction K arbitrary: pm n)
  case 0
  then show ?case by simp
next
  case (Suc K)
  have ps: "(2::nat) ^ Suc K - 1 = tsz (Suc K)" by (simp add: tsz_def)
  show ?case
  proof (cases "2 ^ K \<le> n")
    case True
    have m: "spec_mmr_index n = tsz (Suc K) + spec_mmr_index (n - 2 ^ K)"
      using True Suc.prems(1) by (rule spec_mmr_index_top)
    have lt: "n - 2 ^ K < 2 ^ K" using True Suc.prems(1) by simp
    have ev: "0 < K \<Longrightarrow> even (n - 2 ^ K) = even n" using True by simp
    have n1: "K = 0 \<Longrightarrow> odd n" using True Suc.prems(1) by (cases "n = 1") auto
    have "spec_leaf_count_loop (Suc K) pm (spec_mmr_index n + d)
        = spec_leaf_count_loop K (2 * pm + 1) (spec_mmr_index (n - 2 ^ K) + d)"
      unfolding spec_leaf_count_loop.simps ps m by simp
    also have "\<dots> = (2 * pm + 1) * 2 ^ K + (n - 2 ^ K)
        + (if d = 1 \<and> even (n - 2 ^ K) \<and> 0 < K then 1 else 0)"
      using lt Suc.prems(2) by (rule Suc.IH)
    also have "\<dots> = pm * 2 ^ Suc K + n + (if d = 1 \<and> even n \<and> 0 < Suc K then 1 else 0)"
      using True ev n1 by (cases "K = 0") (auto simp: algebra_simps)
    finally show ?thesis .
  next
    case False
    then have lt: "n < 2 ^ K" by simp
    have b: "spec_mmr_index n + K < tsz (Suc K)" using lt by (rule spec_mmr_index_bound)
    show ?thesis
    proof (cases "K = 0")
      case True
      with lt have n0: "n = 0" by simp
      show ?thesis using True n0 Suc.prems(2) by (cases "d = 0") (auto simp: tsz_def)
    next
      case K: False
      then have s: "spec_mmr_index n + d < tsz (Suc K)" using b Suc.prems(2) by simp
      have "spec_leaf_count_loop (Suc K) pm (spec_mmr_index n + d)
          = spec_leaf_count_loop K (2 * pm) (spec_mmr_index n + d)"
        unfolding spec_leaf_count_loop.simps ps using s by simp
      also have "\<dots> = (2 * pm) * 2 ^ K + n + (if d = 1 \<and> even n \<and> 0 < K then 1 else 0)"
        using lt Suc.prems(2) by (rule Suc.IH)
      finally show ?thesis using K by simp
    qed
  qed
qed

lemma less_pow_floorlog: "n < 2 ^ floorlog 2 n"
  by (cases "n = 0") (use floorlog2_bounds[of n] in auto)

lemma spec_leaf_count_mmr_index:
  "spec_leaf_count (spec_mmr_index e) = (if even e then e + 1 else e)"
proof -
  define K where "K = floorlog 2 (spec_mmr_index e + 1)"
  have "e \<le> spec_mmr_index e" using spec_mmr_index_le by blast
  moreover have "spec_mmr_index e + 1 < 2 ^ K" unfolding K_def by (rule less_pow_floorlog)
  ultimately have e: "e < 2 ^ K" by simp
  have K: "0 < K" unfolding K_def by (rule floorlog2_pos) simp
  have "spec_leaf_count (spec_mmr_index e) = spec_leaf_count_loop K 0 (spec_mmr_index e + 1)"
    by (simp add: spec_leaf_count_def K_def)
  also have "\<dots> = 0 * 2 ^ K + e + (if (1::nat) = 1 \<and> even e \<and> 0 < K then 1 else 0)"
    using e by (rule spec_leaf_count_loop_size) simp
  finally show ?thesis using K by simp
qed

lemma spec_leaf_count_size:
  "0 < n \<Longrightarrow> spec_leaf_count (spec_mmr_index n - 1) = n"
proof -
  assume n: "0 < n"
  define K where "K = floorlog 2 (spec_mmr_index n)"
  have m: "n \<le> spec_mmr_index n" using spec_mmr_index_le by blast
  then have mp: "spec_mmr_index n - 1 + 1 = spec_mmr_index n" using n by simp
  have "spec_mmr_index n < 2 ^ K" unfolding K_def by (rule less_pow_floorlog)
  with m have e: "n < 2 ^ K" by simp
  have "spec_leaf_count (spec_mmr_index n - 1)
      = spec_leaf_count_loop (floorlog 2 (spec_mmr_index n - 1 + 1)) 0 (spec_mmr_index n - 1 + 1)"
    by (simp only: spec_leaf_count_def)
  also have "\<dots> = spec_leaf_count_loop K 0 (spec_mmr_index n + 0)"
    unfolding mp K_def by simp
  also have "\<dots> = 0 * 2 ^ K + n + (if (0::nat) = 1 \<and> even n \<and> 0 < K then 1 else 0)"
    using e by (rule spec_leaf_count_loop_size) simp
  finally show ?thesis by simp
qed

text \<open>
  C8 (as stated): \<open>leaf_count(mmr_index(e)) = e + 1\<close> for every leaf index \<open>e\<close>.  For the leaf
  1, \<open>mmr_index\<close> is 1 and \<open>leaf_count(1)\<close> is 1, not 2: counting the peaks of the size
  \<open>mmr_index(e) + 1\<close> drops the node that is left over when the leaf \<open>e\<close> is a right child,
  because the MMR that ends at such a leaf is not complete.
\<close>

theorem C8_counterexample:
  "mmr_index 1 = Some 1 \<and> leaf_count 1 = Some 1 \<and> leaf_count 1 \<noteq> Some (1 + 1)"
  by code_simp

text \<open>
  C8 (amended): for every leaf index \<open>e\<close> with \<open>0 \<le> e < 2 ^ 29\<close>, \<open>mmr_index(e)\<close> returns,
  \<open>leaf_count(mmr_index(e))\<close> is \<open>e + 1\<close> when \<open>e\<close> is even and \<open>e\<close> when \<open>e\<close> is odd, and
  \<open>leaf_count(mmr_index(e + 1) - 1)\<close>, the count at the last node of the complete MMR
  with the leaves \<open>0 .. e\<close>, is \<open>e + 1\<close>.
\<close>

theorem C8_leaf_count_mmr_index:
  assumes "0 \<le> e" "e < 2 ^ 29"
  shows "\<exists>m m'. mmr_index e = Some m
           \<and> leaf_count m = Some (if even e then e + 1 else e)
           \<and> mmr_index (e + 1) = Some m'
           \<and> leaf_count (m' - 1) = Some (e + 1)"
proof -
  define n where "n = nat e"
  have n: "e = int n" "n < 2 ^ 29" using assms by (simp_all add: n_def nat_less_iff)
  have m: "mmr_index e = Some (int (spec_mmr_index n))"
    unfolding n_def using assms by (intro mmr_index_exact) simp_all
  have m': "mmr_index (e + 1) = Some (int (spec_mmr_index (Suc n)))"
    using mmr_index_exact[of "e + 1"] assms by (simp add: n_def nat_add_distrib)
  have b: "spec_mmr_index n \<le> 2 * n" using spec_mmr_index_le by blast
  have b': "spec_mmr_index (Suc n) < 2 * Suc n" by (rule spec_mmr_index_lt) simp
  have p: "Suc n \<le> spec_mmr_index (Suc n)" using spec_mmr_index_le by blast
  have r: "int (spec_mmr_index n) + 1 < 2 ^ 30" using b n(2) by simp
  have r': "int (spec_mmr_index (Suc n)) - 1 + 1 < 2 ^ 30" using b' n(2) by simp
  have l: "leaf_count (int (spec_mmr_index n)) = Some (int (spec_leaf_count (spec_mmr_index n)))"
    using leaf_count_exact[OF _ r] by simp
  have e1: "int (spec_mmr_index (Suc n)) - 1 = int (spec_mmr_index (Suc n) - 1)"
    using p by (simp add: of_nat_diff)
  have e2: "int (spec_mmr_index (Suc n) - 1) + 1 < 2 ^ 30" using r' unfolding e1 .
  have l': "leaf_count (int (spec_mmr_index (Suc n)) - 1)
      = Some (int (spec_leaf_count (spec_mmr_index (Suc n) - 1)))"
    unfolding e1 using leaf_count_exact[OF _ e2] by simp
  have ev: "even e = even n" by (simp add: n(1))
  have c: "spec_leaf_count (spec_mmr_index (Suc n) - 1) = Suc n"
    by (rule spec_leaf_count_size) simp
  have l1: "leaf_count (int (spec_mmr_index n)) = Some (if even e then e + 1 else e)"
    unfolding l spec_leaf_count_mmr_index ev by (simp add: n(1))
  have l2: "leaf_count (int (spec_mmr_index (Suc n)) - 1) = Some (e + 1)"
    unfolding l' c by (simp add: n(1))
  show ?thesis
    unfolding m m' using l1 l2 by simp
qed

theorem C8_witness:
  "\<exists>m m'. mmr_index 3 = Some m
           \<and> leaf_count m = Some (if even (3::int) then 3 + 1 else 3)
           \<and> mmr_index (3 + 1) = Some m'
           \<and> leaf_count (m' - 1) = Some (3 + 1)"
  using C8_leaf_count_mmr_index[of 3] by simp

section \<open>Buffers\<close>

text \<open>
  A \<open>Buffer\<close> is modelled by the list of its bytes.  \<open>Buffer.alloc\<close> zero-fills;
  \<open>subarray\<close> clamps its bounds to the buffer; \<open>set\<close> raises a \<open>RangeError\<close> when the
  source does not fit at the offset.  A \<open>subarray\<close> is a view in the sources; the
  model copies, which is the same as long as the buffer viewed is not written
  afterwards.
\<close>

definition Buffer_alloc :: "int \<Rightarrow> error + bytes" where
  "Buffer_alloc n = (if n < 0 then Inl RangeError else Inr (replicate (nat n) 0))"

definition clamp_index :: "int \<Rightarrow> int \<Rightarrow> int" where
  "clamp_index len k = (if k < 0 then max (len + k) 0 else min k len)"

definition subarray :: "bytes \<Rightarrow> int \<Rightarrow> int \<Rightarrow> bytes" where
  "subarray buf b e =
     (let len = int (length buf); s = clamp_index len b; f = clamp_index len e
      in take (nat (f - s)) (drop (nat s) buf))"

definition buffer_set :: "bytes \<Rightarrow> bytes \<Rightarrow> int \<Rightarrow> error + bytes" where
  "buffer_set target source offset =
     (if offset < 0 \<or> int (length source) + offset > int (length target) then Inl RangeError
      else Inr (take (nat offset) target @ source @ drop (nat offset + length source) target))"


definition be_value :: "bytes \<Rightarrow> int" where
  "be_value bs = foldl (\<lambda>a b. a * 256 + uint b) 0 bs"

definition fromBE64 :: "bytes \<Rightarrow> int \<Rightarrow> int \<Rightarrow> error + int" where
  "fromBE64 buf offset byteLength =
     (if offset < 0 \<or> byteLength < 0 \<or> offset + byteLength > int (length buf) then Inl RangeError
      else if byteLength = 1 \<or> byteLength = 2 \<or> byteLength = 4 then
        Inr (be_value (take (nat byteLength) (drop (nat offset) buf)))
      else if byteLength = 8 then
        (let v = be_value (take 8 (drop (nat offset) buf))
         in if v > 2 ^ 53 - 1 then Inl (Error ''Number exceeds MAX_SAFE_INTEGER'') else Inr v)
      else Inl (Error ''Unsupported byte length''))"

section \<open>The tile format\<close>

record TileFormat =
  tileHeight :: int
  fieldWidth :: int
  peaksStart :: int
  nodesStart :: int
  leafCount :: int
  maxPeaks :: int
  maxTileDataSize :: int
  hash_function :: Hasher

text \<open>
  The rows \<open>(id, data, counter)\<close> of the table \<open>records\<close> of the SQLite provider.  The
  provider is a field of the parameters and of the format in the sources; the model
  passes the table along explicitly.
\<close>

type_synonym TileStorage = "(int \<times> bytes \<times> int) list"

record TileLogParameters =
  tile_height :: int
  hash_size :: int
  hash_function_opt :: "Hasher option"
  storage_opt :: "TileStorage option"

definition format :: "TileLogParameters \<Rightarrow> error + TileFormat" where
  "format params =
     (case hash_function_opt params of
        None \<Rightarrow> Inl (Error ''Hash function required'')
      | Some h \<Rightarrow>
          if storage_opt params = None then Inl (Error ''Storage provider required'')
          else if hash_size params \<noteq> 32 then Inl (Error ''Hash size must be 32 for now'')
          else
            (let tileHeightIndex = tile_height params;
                 mp = 64;
                 fw = 32;
                 ps = 1 * fw;
                 ns = ps + mp * fw;
                 lc = shl 1 tileHeightIndex;
                 mt = ns + shl 1 tileHeightIndex * fw + mp * fw
             in Inr \<lparr>tileHeight = tileHeightIndex, fieldWidth = fw, peaksStart = ps,
                     nodesStart = ns, leafCount = lc, maxPeaks = mp, maxTileDataSize = mt,
                     hash_function = h\<rparr>))"

definition get_tileid :: "TileFormat \<Rightarrow> Index \<Rightarrow> int option" where
  "get_tileid fmt i =
     (case leaf_count i of
        None \<Rightarrow> None
      | Some n \<Rightarrow> if leafCount fmt = 0 then None else Some (n div leafCount fmt))"


definition read_start_field :: "TileFormat \<Rightarrow> bytes \<Rightarrow> error + int \<times> int" where
  "read_start_field fmt buf =
     (case fromBE64 buf (fieldWidth fmt - 16) 8 of
        Inl e \<Rightarrow> Inl e
      | Inr th \<Rightarrow>
          (case fromBE64 buf (fieldWidth fmt - 8) 8 of
             Inl e \<Rightarrow> Inl e
           | Inr tid \<Rightarrow> Inr (th, tid)))"

definition max_tile_size :: "TileFormat \<Rightarrow> int \<Rightarrow> int option" where
  "max_tile_size fmt tid =
     (case mmr_index (leafCount fmt * (tid + 0)) of
        None \<Rightarrow> None
      | Some i0 \<Rightarrow>
          (case mmr_index (leafCount fmt * (tid + 1)) of
             None \<Rightarrow> None
           | Some i1 \<Rightarrow> Some (nodesStart fmt + (i1 - i0) * fieldWidth fmt)))"

section \<open>Tiles\<close>

record Tile =
  cfg :: TileFormat
  tileid :: Index
  firstIndex :: Index
  lastLeafMMRIndex :: Index
  nextIndex :: Index
  ancestorPeaks :: "Index \<rightharpoonup> bytes"
  data :: bytes

definition read_field :: "TileFormat \<Rightarrow> bytes \<Rightarrow> Index \<Rightarrow> int \<Rightarrow> bytes" where
  "read_field fmt buf i offset =
     subarray buf (offset + i * fieldWidth fmt) (offset + (i + 1) * fieldWidth fmt)"


fun read_ancestor_peaks_map_loop ::
  "TileFormat \<Rightarrow> bytes \<Rightarrow> Index list \<Rightarrow> int \<Rightarrow> (Index \<rightharpoonup> bytes) \<Rightarrow> (Index \<rightharpoonup> bytes) option" where
  "read_ancestor_peaks_map_loop fmt buf [] i ap = Some ap"
| "read_ancestor_peaks_map_loop fmt buf (p # ps) i ap =
     (case index_height p of
        None \<Rightarrow> None
      | Some g \<Rightarrow>
          if g < tileHeight fmt - 1 then read_ancestor_peaks_map_loop fmt buf ps (i + 1) ap
          else read_ancestor_peaks_map_loop fmt buf ps (i + 1)
                 (ap(p \<mapsto> read_field fmt buf i (peaksStart fmt))))"

definition read_ancestor_peaks_map ::
  "TileFormat \<Rightarrow> bytes \<Rightarrow> Index \<Rightarrow> (error + (Index \<rightharpoonup> bytes)) option" where
  "read_ancestor_peaks_map fmt buf first =
     (if first = 0 then Some (Inl (Error ''No ancestor peaks for the first tile''))
      else
        (case peaks (first - 1) of
           None \<Rightarrow> None
         | Some ps \<Rightarrow> map_option Inr (read_ancestor_peaks_map_loop fmt buf ps 0 Map.empty)))"

text \<open>The constructor; \<open>lastIndex\<close> is \<open>None\<close> for \<open>undefined\<close>.\<close>

definition new_Tile :: "TileFormat \<Rightarrow> bytes \<Rightarrow> Index \<Rightarrow> Index option \<Rightarrow> (error + Tile) option" where
  "new_Tile fmt buf tid lastIndex =
     (case mmr_index (tid * shl 1 (tileHeight fmt)) of
        None \<Rightarrow> None
      | Some first \<Rightarrow>
          (let nxt = (case lastIndex of None \<Rightarrow> first | Some l \<Rightarrow> l + 1);
               lst = (case lastIndex of None \<Rightarrow> first | Some l \<Rightarrow> l)
           in if lst < first then Some (Inl (Error ''lastIndex is before the current tile data''))
              else
                (case mmr_index ((tid + 1) * shl 1 (tileHeight fmt) - 1) of
                   None \<Rightarrow> None
                 | Some lastLeaf \<Rightarrow>
                     if first > 0 then
                       (case read_ancestor_peaks_map fmt buf first of
                          None \<Rightarrow> None
                        | Some (Inl e) \<Rightarrow> Some (Inl e)
                        | Some (Inr ap) \<Rightarrow>
                            Some (Inr \<lparr>cfg = fmt, tileid = tid, firstIndex = first,
                                       lastLeafMMRIndex = lastLeaf, nextIndex = nxt,
                                       ancestorPeaks = ap, data = buf\<rparr>))
                     else
                       Some (Inr \<lparr>cfg = fmt, tileid = tid, firstIndex = first,
                                  lastLeafMMRIndex = lastLeaf, nextIndex = nxt,
                                  ancestorPeaks = Map.empty, data = buf\<rparr>))))"

definition read_index :: "Tile \<Rightarrow> Index \<Rightarrow> error + bytes" where
  "read_index t i =
     (if i < firstIndex t then Inl (Error ''Index out of bounds'')
      else Inr (read_field (cfg t) (data t) (i - firstIndex t) (nodesStart (cfg t))))"


definition Tile_get :: "Tile \<Rightarrow> Index \<Rightarrow> error + bytes" where
  "Tile_get t i =
     (if i < firstIndex t then
        (case ancestorPeaks t i of
           Some v \<Rightarrow> Inr v
         | None \<Rightarrow> Inl MMRIndexRangeError)
      else if i \<ge> nextIndex t then Inl MMRIndexRangeError
      else read_index t i)"






text \<open>
  \<open>Tile.load\<close> computes the last index by a division of the stored length; a stored
  length that is not a whole number of fields past \<open>nodesStart\<close> gives an index that is
  not an integer, outside the model.
\<close>

definition Tile_load :: "TileFormat \<Rightarrow> bytes \<Rightarrow> (error + Tile) option" where
  "Tile_load fmt storeData =
     (case read_start_field fmt storeData of
        Inl e \<Rightarrow> Some (Inl e)
      | Inr sf \<Rightarrow>
          (case max_tile_size fmt (snd sf) of
             None \<Rightarrow> None
           | Some n \<Rightarrow>
               (case Buffer_alloc n of
                  Inl e \<Rightarrow> Some (Inl e)
                | Inr buf0 \<Rightarrow>
                    (case buffer_set buf0 storeData 0 of
                       Inl e \<Rightarrow> Some (Inl e)
                     | Inr buf \<Rightarrow>
                         if tileHeight fmt \<noteq> fst sf then Some (Inl (Error ''Tile height mismatch''))
                         else
                           (case mmr_index (snd sf * shl 1 (tileHeight fmt)) of
                              None \<Rightarrow> None
                            | Some first \<Rightarrow>
                                if fieldWidth fmt = 0
                                   \<or> (int (length storeData) - nodesStart fmt) mod fieldWidth fmt \<noteq> 0
                                then None
                                else new_Tile fmt buf (snd sf)
                                       (Some (first
                                          + (int (length storeData) - nodesStart fmt) div fieldWidth fmt
                                          - 1)))))))"

section \<open>The storage provider\<close>


text \<open>The query of \<open>read\<close> selects the column \<open>data\<close> only: the counter returned is \<open>undefined\<close>.\<close>

definition SQLite_read :: "TileStorage \<Rightarrow> int \<Rightarrow> error + bytes \<times> int option" where
  "SQLite_read db i =
     (case find (\<lambda>r. fst r = i) db of
        None \<Rightarrow> Inl (Error ''Tile not found'')
      | Some r \<Rightarrow> Inr (fst (snd r), None))"



section \<open>The tile store and the log\<close>



definition TileStore_get ::
  "TileFormat \<Rightarrow> TileStorage \<Rightarrow> int \<Rightarrow> (error + Tile \<times> int option) option" where
  "TileStore_get fmt db tid =
     (case SQLite_read db tid of
        Inl e \<Rightarrow> Some (Inl e)
      | Inr dv \<Rightarrow>
          (case Tile_load fmt (fst dv) of
             None \<Rightarrow> None
           | Some (Inl e) \<Rightarrow> Some (Inl e)
           | Some (Inr t) \<Rightarrow> Some (Inr (t, snd dv))))"


record TileLog =
  log_cfg :: TileFormat
  store :: TileStorage
  got :: "Tile option"

definition new_TileLog :: "TileLogParameters \<Rightarrow> error + TileLog" where
  "new_TileLog params =
     (case format params of
        Inl e \<Rightarrow> Inl e
      | Inr fmt \<Rightarrow>
          (case storage_opt params of
             None \<Rightarrow> Inl (Error ''Storage provider required'')
           | Some db \<Rightarrow> Inr \<lparr>log_cfg = fmt, store = db, got = None\<rparr>))"



definition TileLog_get_tile :: "TileLog \<Rightarrow> int \<Rightarrow> (error + Tile) option" where
  "TileLog_get_tile lg tid =
     (case TileStore_get (log_cfg lg) (store lg) tid of
        None \<Rightarrow> None
      | Some (Inl e) \<Rightarrow> Some (Inl e)
      | Some (Inr tv) \<Rightarrow> Some (Inr (fst tv)))"

definition TileLog_fetch :: "TileLog \<Rightarrow> Index \<Rightarrow> (error + TileLog \<times> bytes) option" where
  "TileLog_fetch lg i =
     (case get_tileid (log_cfg lg) i of
        None \<Rightarrow> None
      | Some tid \<Rightarrow>
          (case TileLog_get_tile lg tid of
             None \<Rightarrow> None
           | Some (Inl e) \<Rightarrow> Some (Inl e)
           | Some (Inr t) \<Rightarrow>
               (case Tile_get t i of
                  Inl e \<Rightarrow> Some (Inl e)
                | Inr v \<Rightarrow> Some (Inr (lg\<lparr>got := Some t\<rparr>, v)))))"

definition TileLog_get :: "TileLog \<Rightarrow> Index \<Rightarrow> (error + TileLog \<times> bytes) option" where
  "TileLog_get lg i =
     (case got lg of
        None \<Rightarrow> TileLog_fetch lg i
      | Some g \<Rightarrow>
          (case Tile_get g i of
             Inr v \<Rightarrow> Some (Inr (lg, v))
           | Inl e \<Rightarrow> if e = MMRIndexRangeError then TileLog_fetch lg i else Some (Inl e)))"

section \<open>Properties of the tile model\<close>


lemma length_toBE64 [simp]: "length (toBE64 n) = 8"
  by (simp add: toBE64_def)












lemma mmr_index_0 [simp]: "mmr_index 0 = Some 0"
  by (simp add: mmr_index_def mmr_index_loop.simps)








subsection \<open>What \<open>add_leaf_hash\<close> keeps and which errors it raises\<close>

lemma add_leaf_hash_loop_inv:
  fixes da :: "'db \<Rightarrow> bytes \<Rightarrow> error + 'db \<times> Index"
  assumes ret: "add_leaf_hash_loop da dg h db i g = Some (Inr r)"
    and step: "\<And>db v r. I db \<Longrightarrow> da db v = Inr r \<Longrightarrow> I (fst r)"
    and init: "I db"
  shows "I (fst r)"
proof -
  have "da = da \<longrightarrow> I db \<longrightarrow> (\<forall>r'. (Inr r :: error + 'db \<times> Index) = Inr r' \<longrightarrow> I (fst r'))"
  proof (rule add_leaf_hash_loop.raw_induct[where P = "\<lambda>da' dg' h' db i g y.
            da' = da \<longrightarrow> I db \<longrightarrow> (\<forall>r. y = Inr r \<longrightarrow> I (fst r))", OF _ ret], goal_cases)
    case (1 f da' dg' h' db i g y)
    show ?case
    proof (intro impI allI)
      fix r assume d: "da' = da" and I: "I db" and y: "y = Inr r"
      from 1(2) obtain hh where hh: "index_height i = Some hh"
        by (cases "index_height i") auto
      show "I (fst r)"
      proof (cases "g < hh")
        case False
        with 1(2) hh y have "r = (db, i)" by simp
        with I show ?thesis by simp
      next
        case True
        with 1(2) hh y obtain left right r' where
          a: "da' db (hash_pos_pair64 h' (i + 1) left right) = Inr r'"
          and f: "f da' dg' h' (fst r') (snd r') (g + 1) = Some (Inr r)"
          by (auto split: sum.splits)
        have "I (fst r')" using I a d by (auto intro: step)
        with 1(1)[OF f] d show ?thesis by simp
      qed
    qed
  qed
  with init show ?thesis by simp
qed


lemma add_leaf_hash_inv:
  assumes ret: "add_leaf_hash da dg h db f = Some (Inr r)"
    and step: "\<And>db v r. I db \<Longrightarrow> da db v = Inr r \<Longrightarrow> I (fst r)"
    and init: "I db"
  shows "I (fst r)"
proof -
  from ret obtain r0 where a: "da db f = Inr r0"
    and l: "add_leaf_hash_loop da dg h (fst r0) (snd r0) 0 = Some (Inr r)"
    by (auto simp: add_leaf_hash_def split: sum.splits)
  have "I (fst r0)" using init a by (rule step)
  with l step show ?thesis by (rule add_leaf_hash_loop_inv)
qed


subsection \<open>Appending to a tile\<close>







subsection \<open>The errors of the tile operations\<close>














subsection \<open>A new tile is not full\<close>



subsection \<open>\<open>TileLog.append\<close> and \<open>TileFullError\<close>\<close>






subsection \<open>The node values held by a tile\<close>









lemma mmr_index_1: "mmr_index 1 = Some 1"
  by code_simp

lemma leaf_count_2: "leaf_count 2 = Some 2"
  by code_simp





subsection \<open>The states of a tile\<close>















end
